theory Spec2Isabelle
  imports Main "HOL-Library.Sublist"
begin

section \<open>Python strings\<close>

text \<open>
  A Python \<open>str\<close> is modelled as a \<open>string\<close> whose characters are the code points
  below 256.  On that range \<open>str.lower\<close> maps each character to one character: the
  code points 65 to 90 and 192 to 222 other than 215 move up by 32, which sets the bit of
  weight 32, and every other code point stays.  The characters that \<open>str.split()\<close> and
  \<open>str.strip()\<close> treat as white space are the twelve listed in \<open>is_space\<close>.  The
  functions that do not look at the characters (\<open>find\<close>, \<open>in\<close>, \<open>join\<close>, slicing) are
  defined for lists of any element type, so that they also serve for Python strings as
  lists of arbitrary code points, where lower-casing is not a map on characters:
  \<open>extract_evidence\<close> is modelled on such strings in a section of its own.
\<close>

definition is_space :: "char \<Rightarrow> bool" where
  "is_space c = (c \<in> set [CHR 0x09, CHR 0x0A, CHR 0x0B, CHR 0x0C, CHR 0x0D, CHR 0x1C,
                            CHR 0x1D, CHR 0x1E, CHR 0x1F, CHR 0x20, CHR 0x85, CHR 0xA0])"

fun lower_char :: "char \<Rightarrow> char" where
  "lower_char (Char b0 b1 b2 b3 b4 b5 b6 b7) =
     (let n = (of_char (Char b0 b1 b2 b3 b4 b5 b6 b7) :: nat)
      in if (65 \<le> n \<and> n \<le> 90) \<or> (192 \<le> n \<and> n \<le> 222 \<and> n \<noteq> 215)
         then Char b0 b1 b2 b3 b4 True b6 b7
         else Char b0 b1 b2 b3 b4 b5 b6 b7)"

definition lower :: "string \<Rightarrow> string" where
  "lower s = map lower_char s"

text \<open>\<open>s.find(p)\<close>: the least index at which \<open>p\<close> occurs, \<open>None\<close> for Python's \<open>-1\<close>.\<close>

fun find_from :: "nat \<Rightarrow> 'a list \<Rightarrow> 'a list \<Rightarrow> nat option" where
  "find_from i p [] = (if p = [] then Some i else None)"
| "find_from i p (c # cs) = (if prefix p (c # cs) then Some i else find_from (Suc i) p cs)"

definition str_find :: "'a list \<Rightarrow> 'a list \<Rightarrow> nat option" where
  "str_find p s = find_from 0 p s"

text \<open>\<open>p in s\<close>.\<close>

definition contains :: "'a list \<Rightarrow> 'a list \<Rightarrow> bool" where
  "contains p s = (str_find p s \<noteq> None)"

text \<open>\<open>s.split()\<close>: the maximal runs of characters that are not white space.\<close>

fun split_from :: "string \<Rightarrow> string \<Rightarrow> string list" where
  "split_from cur [] = (if cur = [] then [] else [cur])"
| "split_from cur (c # cs) =
     (if is_space c then (if cur = [] then split_from [] cs else cur # split_from [] cs)
      else split_from (cur @ [c]) cs)"

definition split_ws :: "string \<Rightarrow> string list" where
  "split_ws s = split_from [] s"

text \<open>\<open>sep.join(xs)\<close>.\<close>

fun join :: "'a list \<Rightarrow> 'a list list \<Rightarrow> 'a list" where
  "join sep [] = []"
| "join sep [x] = x"
| "join sep (x # y # ys) = x @ sep @ join sep (y # ys)"

text \<open>\<open>" ".join(s.split())\<close>, the idiom the scripts use to collapse white space.\<close>

definition collapse :: "string \<Rightarrow> string" where
  "collapse s = join '' '' (split_ws s)"

text \<open>\<open>s.strip()\<close>.\<close>

definition strip :: "string \<Rightarrow> string" where
  "strip s = rev (dropWhile is_space (rev (dropWhile is_space s)))"

text \<open>\<open>s[a:b]\<close> for indices that are not negative.\<close>

definition slice :: "'a list \<Rightarrow> nat \<Rightarrow> nat \<Rightarrow> 'a list" where
  "slice s a b = take (b - a) (drop a s)"

section \<open>Lead sourcing: constants\<close>

definition EAST_COAST_STATES :: "(string \<times> string) list" where
  "EAST_COAST_STATES =
     [(''Maine'', ''ME''), (''New Hampshire'', ''NH''), (''Vermont'', ''VT''),
      (''Massachusetts'', ''MA''), (''Rhode Island'', ''RI''), (''Connecticut'', ''CT''),
      (''New York'', ''NY''), (''New Jersey'', ''NJ''), (''Pennsylvania'', ''PA''),
      (''Delaware'', ''DE''), (''Maryland'', ''MD''), (''District of Columbia'', ''DC''),
      (''Virginia'', ''VA''), (''North Carolina'', ''NC''), (''South Carolina'', ''SC''),
      (''Georgia'', ''GA''), (''Florida'', ''FL'')]"

definition SEARCH_SEEDS :: "string list" where
  "SEARCH_SEEDS = [''executive coach'', ''leadership coach'', ''executive coaching'']"

definition EAST_COAST_CITIES :: "string list" where
  "EAST_COAST_CITIES =
     [''New York, NY'', ''Boston, MA'', ''Philadelphia, PA'', ''Washington, DC'',
      ''Baltimore, MD'', ''Richmond, VA'', ''Raleigh, NC'', ''Charlotte, NC'',
      ''Atlanta, GA'', ''Miami, FL'', ''Orlando, FL'', ''Tampa, FL'']"

definition EXCLUDE_KEYWORDS :: "string list" where
  "EXCLUDE_KEYWORDS =
     [''software'', ''engineering'', ''technical'', ''developer'', ''devops'',
      ''product manager'', ''cto'', ''cio'', ''it'']"

definition SPECIALTY_KEYWORDS :: "string list" where
  "SPECIALTY_KEYWORDS =
     [''leadership'', ''c-suite'', ''ceo'', ''founder'', ''team'', ''organizational'',
      ''career'', ''communication'', ''strategy'', ''performance'', ''women leaders'',
      ''executive presence'', ''succession'']"

text \<open>The phrases tested by \<open>looks_like_executive_coach\<close>, in the order of its disjunction.\<close>

definition TRIGGER_PHRASES :: "string list" where
  "TRIGGER_PHRASES = [''executive coach'', ''executive coaching'', ''leadership coach'']"

section \<open>Lead sourcing: the pure text functions\<close>

definition contains_excluded_keywords :: "string \<Rightarrow> bool" where
  "contains_excluded_keywords text =
     (let lower = lower text in list_ex (\<lambda>keyword. contains keyword lower) EXCLUDE_KEYWORDS)"

definition looks_like_executive_coach :: "string \<Rightarrow> bool" where
  "looks_like_executive_coach text =
     (let lower = lower text
      in contains ''executive coach'' lower \<or> contains ''executive coaching'' lower
         \<or> contains ''leadership coach'' lower)"

text \<open>
  \<open>found[:3]\<close> of the vocabulary hits, joined; \<open>join\<close> of the empty list is the empty
  string, which is what the function returns when nothing was found.
\<close>

definition extract_specialty :: "string \<Rightarrow> string" where
  "extract_specialty text =
     (let lower = lower text;
          found = filter (\<lambda>keyword. contains keyword lower) SPECIALTY_KEYWORDS
      in if found = [] then [] else join '', '' (take 3 found))"

text \<open>
  The loop of \<open>extract_evidence\<close> over its three phrases: the first phrase of the list
  that occurs in the lower-cased text decides, at its first occurrence there, and the
  index found in the lower-cased text is used to slice the original text.  The loop is
  defined for any element type; \<open>collapse_ws\<close> is \<open>" ".join(snippet.split())\<close> on it.
\<close>

fun evidence_loop :: "('a list \<Rightarrow> 'a list) \<Rightarrow> 'a list list \<Rightarrow> 'a list \<Rightarrow> 'a list \<Rightarrow> 'a list" where
  "evidence_loop collapse_ws [] lowered text = []"
| "evidence_loop collapse_ws (phrase # phrases) lowered text =
     (case str_find phrase lowered of
        Some idx \<Rightarrow>
          (let start = nat (max 0 (int idx - 60));
               end = min (length text) (idx + 120);
               snippet = slice text start end
           in collapse_ws snippet)
      | None \<Rightarrow> evidence_loop collapse_ws phrases lowered text)"

text \<open>\<open>extract_evidence\<close> on the page texts of the pipeline, of code points below 256.\<close>

definition extract_evidence :: "string \<Rightarrow> string" where
  "extract_evidence text =
     evidence_loop collapse [''executive coach'', ''executive coaching'', ''leadership coach'']
       (lower text) text"

text \<open>
  \<open>guess_name\<close>.  Its separators are \<open>|\<close>, \<open>-\<close>, the em dash and \<open>:\<close>; the em dash is
  the code point 8212, which no modelled string contains, so its test is never true here
  and the loop passes to the next separator.
\<close>

fun cut_at_first_sep :: "string list \<Rightarrow> string \<Rightarrow> string" where
  "cut_at_first_sep [] candidate = candidate"
| "cut_at_first_sep (sep # seps) candidate =
     (case str_find sep candidate of
        Some i \<Rightarrow> take i candidate
      | None \<Rightarrow> cut_at_first_sep seps candidate)"

definition guess_name :: "string \<Rightarrow> string \<Rightarrow> string" where
  "guess_name title h1 =
     (let candidate = (if h1 \<noteq> [] then h1 else title)
      in if candidate = [] then []
         else strip (collapse (cut_at_first_sep [''|'', ''-'', '':''] candidate)))"

section \<open>Errors and the standard library\<close>

text \<open>
  Exceptions are values.  \<open>ReError\<close> is \<open>re.error\<close>; \<open>NetworkError\<close> stands for whatever
  \<open>urlopen\<close>, \<open>read\<close> or \<open>decode\<close> raise; \<open>PlainException\<close> is the bare
  \<open>Exception("Failed to fetch URL")\<close> of \<open>fetch_url\<close>.
\<close>

datatype pyerror =
  ValueError | TypeError | OverflowError | IndexError | ReError | NetworkError | PlainException

text \<open>The two components of \<open>urlparse(link)\<close> that the script reads.\<close>

record parsed_url =
  netloc :: string
  query :: string

text \<open>
  What \<open>HTMLParser.feed\<close> reports to its handlers: \<open>handle_starttag\<close> with the
  lower-cased tag and the attribute list (an attribute without a value carries \<open>None\<close>),
  \<open>handle_endtag\<close>, and \<open>handle_data\<close>.  An empty-element tag is a start event followed
  by an end event.
\<close>

datatype html_event =
  StartTag string "(string \<times> string option) list"
| EndTag string
| Data string

text \<open>
  The functions of Python's standard library that the lead-sourcing script calls are
  parameters of the development, so every universally quantified result below holds
  for whatever these functions compute.

  \<^item> \<open>http_get\<close> is one attempt of \<open>fetch_url\<close>: the request, \<open>urlopen\<close>, \<open>read\<close> and
    \<open>decode\<close>; it may consult and change the world \<open>'w\<close> and either raises or yields the
    page text.
  \<^item> \<open>urlparse\<close> raises \<open>ValueError\<close> on links it rejects.
  \<^item> \<open>parse_qs\<close> yields the dictionary of a query string.
  \<^item> \<open>b64_text p\<close> is
    \<open>base64.urlsafe_b64decode(p.encode("utf-8")).decode("utf-8", errors="replace")\<close>,
    \<open>None\<close> when that raises.
  \<^item> \<open>html_events\<close> is the event sequence of \<open>HTMLParser.feed\<close>.
  \<^item> \<open>re_title\<close> and \<open>re_h1\<close> are group 1 of the searches of \<open>extract_title\<close> and
    \<open>extract_h1\<close>; \<open>re_sub_tags s\<close> is \<open>re.sub(r"<[^>]+>", " ", s)\<close>.
  \<^item> \<open>re_linkedin\<close> is the search of \<open>extract_linkedin\<close> with the pattern written
    there, yielding group 0; it can raise because \<open>re.search\<close> compiles its pattern first.
  \<^item> \<open>re_city_state abbr\<close> is the search of \<open>extract_location\<close> with the pattern built
    for \<open>abbr\<close>, yielding group 1.
\<close>

record 'w stdlib =
  http_get :: "'w \<Rightarrow> string \<Rightarrow> (pyerror + string) \<times> 'w"
  urlparse :: "string \<Rightarrow> pyerror + parsed_url"
  parse_qs :: "string \<Rightarrow> string \<Rightarrow> string list option"
  b64_text :: "string \<Rightarrow> string option"
  quote_plus :: "string \<Rightarrow> string"
  html_events :: "string \<Rightarrow> html_event list"
  html_unescape :: "string \<Rightarrow> string"
  re_title :: "string \<Rightarrow> string option"
  re_h1 :: "string \<Rightarrow> string option"
  re_sub_tags :: "string \<Rightarrow> string"
  re_linkedin :: "string \<Rightarrow> pyerror + string option"
  re_city_state :: "string \<Rightarrow> string \<Rightarrow> string option"

section \<open>Lead sourcing: the two markup parsers\<close>

text \<open>\<open>dict(attrs).get(k)\<close>: of several attributes with one name the last one counts.\<close>

definition attrs_get :: "(string \<times> string option) list \<Rightarrow> string \<Rightarrow> string option option" where
  "attrs_get attrs k = map_of (rev attrs) k"

record bing_result_parser =
  links :: "string list"
  in_result :: bool

definition brp_init :: bing_result_parser where
  "brp_init = \<lparr>links = [], in_result = False\<rparr>"

definition brp_starttag :: "string \<Rightarrow> (string \<times> string option) list \<Rightarrow> bing_result_parser \<Rightarrow> bing_result_parser" where
  "brp_starttag tag attrs p =
     (if tag = ''li'' \<and> attrs_get attrs ''class'' \<noteq> None
         \<and> contains ''b_algo'' (case attrs_get attrs ''class'' of Some (Some v) \<Rightarrow> v | _ \<Rightarrow> [])
      then p\<lparr>in_result := True\<rparr>
      else if tag = ''a'' \<and> in_result p
      then (case attrs_get attrs ''href'' of
              Some (Some href) \<Rightarrow> (if href \<noteq> [] then p\<lparr>links := links p @ [href]\<rparr> else p)
            | _ \<Rightarrow> p)
      else p)"

definition brp_endtag :: "string \<Rightarrow> bing_result_parser \<Rightarrow> bing_result_parser" where
  "brp_endtag tag p = (if tag = ''li'' \<and> in_result p then p\<lparr>in_result := False\<rparr> else p)"

fun brp_event :: "bing_result_parser \<Rightarrow> html_event \<Rightarrow> bing_result_parser" where
  "brp_event p (StartTag tag attrs) = brp_starttag tag attrs p"
| "brp_event p (EndTag tag) = brp_endtag tag p"
| "brp_event p (Data d) = p"

definition brp_feed :: "html_event list \<Rightarrow> bing_result_parser" where
  "brp_feed events = foldl brp_event brp_init events"

record text_extractor =
  parts :: "string list"
  skip_depth :: nat

definition te_init :: text_extractor where
  "te_init = \<lparr>parts = [], skip_depth = 0\<rparr>"

definition te_starttag :: "string \<Rightarrow> text_extractor \<Rightarrow> text_extractor" where
  "te_starttag tag t =
     (if tag \<in> {''script'', ''style''} then t\<lparr>skip_depth := skip_depth t + 1\<rparr> else t)"

definition te_endtag :: "string \<Rightarrow> text_extractor \<Rightarrow> text_extractor" where
  "te_endtag tag t =
     (if tag \<in> {''script'', ''style''} \<and> skip_depth t > 0
      then t\<lparr>skip_depth := skip_depth t - 1\<rparr> else t)"

definition te_data :: "string \<Rightarrow> text_extractor \<Rightarrow> text_extractor" where
  "te_data d t =
     (if skip_depth t \<noteq> 0 then t
      else (let cleaned = collapse d
            in if cleaned \<noteq> [] then t\<lparr>parts := parts t @ [cleaned]\<rparr> else t))"

fun te_event :: "text_extractor \<Rightarrow> html_event \<Rightarrow> text_extractor" where
  "te_event t (StartTag tag attrs) = te_starttag tag t"
| "te_event t (EndTag tag) = te_endtag tag t"
| "te_event t (Data d) = te_data d t"

definition te_feed :: "html_event list \<Rightarrow> text_extractor" where
  "te_feed events = foldl te_event te_init events"

definition te_text :: "text_extractor \<Rightarrow> string" where
  "te_text t = join '' '' (parts t)"

text \<open>The three lines of \<open>build_candidates\<close> that turn a page into its text.\<close>

definition page_text :: "'w stdlib \<Rightarrow> string \<Rightarrow> string" where
  "page_text lib html_text = te_text (te_feed (html_events lib html_text))"

section \<open>Lead sourcing: fetching and searching\<close>

definition MAX_RETRIES :: nat where
  "MAX_RETRIES = 3"

text \<open>
  \<open>fetch_url\<close>: up to \<open>retries\<close> attempts, the first page obtained is returned, and
  after the last failed attempt the last error is raised.  The pauses between attempts
  and the log lines are not modelled.
\<close>

fun fetch_attempts :: "'w stdlib \<Rightarrow> string \<Rightarrow> nat \<Rightarrow> pyerror option \<Rightarrow> 'w \<Rightarrow> (pyerror + string) \<times> 'w" where
  "fetch_attempts lib url 0 last_error w =
     (Inl (case last_error of Some e \<Rightarrow> e | None \<Rightarrow> PlainException), w)"
| "fetch_attempts lib url (Suc n) last_error w =
     (case http_get lib w url of
        (Inr page, w') \<Rightarrow> (Inr page, w')
      | (Inl exc, w') \<Rightarrow> fetch_attempts lib url n (Some exc) w')"

definition fetch_url :: "'w stdlib \<Rightarrow> string \<Rightarrow> 'w \<Rightarrow> (pyerror + string) \<times> 'w" where
  "fetch_url lib url w = fetch_attempts lib url MAX_RETRIES None w"

definition extract_title :: "'w stdlib \<Rightarrow> string \<Rightarrow> string" where
  "extract_title lib html_text =
     (case re_title lib html_text of
        None \<Rightarrow> []
      | Some g \<Rightarrow> strip (html_unescape lib g))"

definition extract_h1 :: "'w stdlib \<Rightarrow> string \<Rightarrow> string" where
  "extract_h1 lib html_text =
     (case re_h1 lib html_text of
        None \<Rightarrow> []
      | Some g \<Rightarrow> strip (html_unescape lib (collapse (re_sub_tags lib g))))"

text \<open>
  \<open>normalize_bing_link\<close>.  The call of \<open>urlparse\<close> stands before the \<open>try\<close> block, so
  its \<open>ValueError\<close> leaves the function; so would the \<open>IndexError\<close> of \<open>[0]\<close> on an
  empty value list.  Everything inside the \<open>try\<close> block that raises makes the function
  return the link.
\<close>

definition normalize_bing_link :: "'w stdlib \<Rightarrow> string \<Rightarrow> pyerror + string" where
  "normalize_bing_link lib link =
     (if \<not> contains ''bing.com/ck/a'' link then Inr link
      else case urlparse lib link of
        Inl e \<Rightarrow> Inl e
      | Inr parsed \<Rightarrow>
          (case (case parse_qs lib (query parsed) ''u'' of None \<Rightarrow> [[]] | Some vs \<Rightarrow> vs) of
             [] \<Rightarrow> Inl IndexError
           | encoded # _ \<Rightarrow>
               if encoded = [] then Inr link
               else (let encoded = (if prefix ''a1'' encoded then drop 2 encoded else encoded);
                         padded = encoded @ replicate ((4 - length encoded mod 4) mod 4) CHR ''=''
                     in case b64_text lib padded of
                          None \<Rightarrow> Inr link
                        | Some decoded \<Rightarrow>
                            if prefix ''http'' decoded then Inr decoded else Inr link)))"

text \<open>
  The loop of \<open>bing_search\<close> over \<open>parser.links\<close>; \<open>results\<close> and \<open>seen\<close> are its two
  accumulators.  The length test comes after the \<open>append\<close>.
\<close>

fun collect_results :: "'w stdlib \<Rightarrow> int \<Rightarrow> string list \<Rightarrow> string list \<Rightarrow> string set \<Rightarrow> pyerror + string list" where
  "collect_results lib max_results [] results seen = Inr results"
| "collect_results lib max_results (link # rest) results seen =
     (case normalize_bing_link lib link of
        Inl e \<Rightarrow> Inl e
      | Inr normalized \<Rightarrow>
          if \<not> prefix ''http'' normalized then collect_results lib max_results rest results seen
          else if normalized \<in> seen then collect_results lib max_results rest results seen
          else if max_results \<le> int (length (results @ [normalized])) then Inr (results @ [normalized])
          else collect_results lib max_results rest (results @ [normalized]) (insert normalized seen))"

definition bing_search :: "'w stdlib \<Rightarrow> string \<Rightarrow> int \<Rightarrow> 'w \<Rightarrow> (pyerror + string list) \<times> 'w" where
  "bing_search lib q max_results w =
     (let url = ''https://www.bing.com/search?q='' @ quote_plus lib q
      in case fetch_url lib url w of
           (Inl e, w') \<Rightarrow> (Inl e, w')
         | (Inr html_text, w') \<Rightarrow>
             (collect_results lib max_results (links (brp_feed (html_events lib html_text))) [] {}, w'))"

text \<open>\<open>s.rstrip(").,")\<close>.\<close>

definition rstrip_punct :: "string \<Rightarrow> string" where
  "rstrip_punct s = rev (dropWhile (\<lambda>c. c \<in> set '').,'') (rev s))"

definition extract_linkedin :: "'w stdlib \<Rightarrow> string \<Rightarrow> pyerror + string" where
  "extract_linkedin lib html_text =
     (case re_linkedin lib html_text of
        Inl e \<Rightarrow> Inl e
      | Inr (Some m) \<Rightarrow> Inr (rstrip_punct m)
      | Inr None \<Rightarrow> Inr [])"

text \<open>
  The loop of \<open>extract_location\<close>: for each region in turn, first the pattern of its
  code, then its bare name.
\<close>

fun location_loop :: "'w stdlib \<Rightarrow> (string \<times> string) list \<Rightarrow> string \<Rightarrow> string" where
  "location_loop lib [] text = []"
| "location_loop lib ((state_name, state_abbr) # rest) text =
     (case re_city_state lib state_abbr text of
        Some g \<Rightarrow> g @ '', '' @ state_abbr
      | None \<Rightarrow>
          if contains (lower state_name) (lower text) then state_name
          else location_loop lib rest text)"

definition extract_location :: "'w stdlib \<Rightarrow> string \<Rightarrow> string" where
  "extract_location lib text = location_loop lib EAST_COAST_STATES text"

text \<open>
  \<open>search_linkedin\<close>: the query is the name in double quotes (code point 34) followed by
  \<open>executive coach LinkedIn\<close>; an exception of the search is caught.
\<close>

definition search_linkedin :: "'w stdlib \<Rightarrow> string \<Rightarrow> 'w \<Rightarrow> string \<times> 'w" where
  "search_linkedin lib nm w =
     (if nm = [] then ([], w)
      else (let q = [CHR 0x22] @ nm @ [CHR 0x22] @ '' executive coach LinkedIn''
            in case bing_search lib q 5 w of
                 (Inl exc, w') \<Rightarrow> ([], w')
               | (Inr results, w') \<Rightarrow>
                   (case List.find (\<lambda>link. contains ''linkedin.com/in'' (lower link)) results of
                      Some link \<Rightarrow> (link, w')
                    | None \<Rightarrow> ([], w'))))"

section \<open>Lead sourcing: the candidate pipeline\<close>

record Lead =
  name :: string
  role :: string
  website_url :: string
  linkedin_url :: string
  location :: string
  specialty :: string
  evidence :: string

text \<open>The two variables of \<open>build_candidates\<close>, and the world its requests act on.\<close>

record 'w pipeline =
  leads :: "Lead list"
  seen_domains :: "string set"
  world :: 'w

text \<open>
  How a loop body ends: by an exception, by \<open>return leads\<close>, or by reaching its end or
  a \<open>continue\<close>, after which the loop goes on.
\<close>

datatype 's outcome = Raise pyerror | Return 's | Next 's

fun for_loop :: "('a \<Rightarrow> 's \<Rightarrow> 's outcome) \<Rightarrow> 'a list \<Rightarrow> 's \<Rightarrow> 's outcome" where
  "for_loop body [] s = Next s"
| "for_loop body (x # xs) s =
     (case body x s of
        Next s' \<Rightarrow> for_loop body xs s'
      | Return s' \<Rightarrow> Return s'
      | Raise e \<Rightarrow> Raise e)"

definition search_targets :: "string list" where
  "search_targets = EAST_COAST_CITIES @ map fst EAST_COAST_STATES"

text \<open>
  The body of \<open>for link in results\<close>.  The calls of \<open>urlparse\<close> and of
  \<open>extract_linkedin\<close> stand outside every \<open>try\<close> block, so what they raise leaves
  \<open>build_candidates\<close>.
\<close>

definition process_link :: "'w stdlib \<Rightarrow> int \<Rightarrow> string \<Rightarrow> string \<Rightarrow> 'w pipeline \<Rightarrow> 'w pipeline outcome" where
  "process_link lib limit target link st =
     (if limit \<le> int (length (leads st)) then Return st
      else case urlparse lib link of
        Inl e \<Rightarrow> Raise e
      | Inr parsed \<Rightarrow>
          (let domain = lower (netloc parsed)
           in if domain = [] \<or> domain \<in> seen_domains st then Next st
              else if contains ''linkedin.com'' domain then Next st
              else (let st1 = st\<lparr>seen_domains := insert domain (seen_domains st)\<rparr>
                    in case fetch_url lib link (world st1) of
                         (Inl exc, w') \<Rightarrow> Next (st1\<lparr>world := w'\<rparr>)
                       | (Inr html_text, w') \<Rightarrow>
                           (let st2 = st1\<lparr>world := w'\<rparr>;
                                title = extract_title lib html_text;
                                h1 = extract_h1 lib html_text;
                                text = page_text lib html_text
                            in if \<not> looks_like_executive_coach text then Next st2
                               else if contains_excluded_keywords text then Next st2
                               else (let nm = guess_name title h1;
                                         loc = extract_location lib text;
                                         loc = (if loc = [] \<and> contains '','' target then target
                                                else if loc = [] then target else loc)
                                     in case extract_linkedin lib html_text of
                                          Inl e \<Rightarrow> Raise e
                                        | Inr found \<Rightarrow>
                                            (let (linkedin, w'') =
                                                   (if found = [] then search_linkedin lib nm w'
                                                    else (found, w'));
                                                 lead = \<lparr>name = (if nm \<noteq> [] then nm else ''Unknown''),
                                                         role = ''Executive Coach'',
                                                         website_url = link,
                                                         linkedin_url = linkedin,
                                                         location = loc,
                                                         specialty = extract_specialty text,
                                                         evidence = extract_evidence text\<rparr>
                                             in Next (st2\<lparr>leads := leads st2 @ [lead],
                                                          world := w''\<rparr>)))))))"

text \<open>
  The body of \<open>for seed in SEARCH_SEEDS\<close>.  The query is the seed and the target, each in
  double quotes, with a space between.  A search that raises is skipped.
\<close>

definition process_seed :: "'w stdlib \<Rightarrow> int \<Rightarrow> string \<Rightarrow> string \<Rightarrow> 'w pipeline \<Rightarrow> 'w pipeline outcome" where
  "process_seed lib limit target seed st =
     (if limit \<le> int (length (leads st)) then Return st
      else (let q = [CHR 0x22] @ seed @ [CHR 0x22, CHR 0x20, CHR 0x22] @ target @ [CHR 0x22]
            in case bing_search lib q 10 (world st) of
                 (Inl exc, w') \<Rightarrow> Next (st\<lparr>world := w'\<rparr>)
               | (Inr results, w') \<Rightarrow>
                   for_loop (process_link lib limit target) results (st\<lparr>world := w'\<rparr>)))"

definition process_target :: "'w stdlib \<Rightarrow> int \<Rightarrow> string \<Rightarrow> 'w pipeline \<Rightarrow> 'w pipeline outcome" where
  "process_target lib limit target st = for_loop (process_seed lib limit target) SEARCH_SEEDS st"

text \<open>
  \<open>build_candidates\<close>, on the world \<open>w\<close> in which it starts: the exception that left it,
  or the list it returned together with the world it left behind.
\<close>

definition build_candidates :: "'w stdlib \<Rightarrow> int \<Rightarrow> 'w \<Rightarrow> pyerror + Lead list \<times> 'w" where
  "build_candidates lib limit w =
     (case for_loop (process_target lib limit) search_targets
             \<lparr>leads = [], seen_domains = {}, world = w\<rparr> of
        Raise e \<Rightarrow> Inl e
      | Return st \<Rightarrow> Inr (leads st, world st)
      | Next st \<Rightarrow> Inr (leads st, world st))"

section \<open>Onboarding email: the duplicate-send guard\<close>

text \<open>
  A value that \<open>csv.DictReader\<close> stores under a column name: the field of the row, or
  \<open>None\<close> when the row is shorter than the header.  A row is the dictionary from column
  names to such values.
\<close>

datatype cell = Str string | PyNone

type_synonym row = "string \<Rightarrow> cell option"

text \<open>
  A \<open>datetime\<close>: its calendar fields as the number of microseconds since
  0001-01-01T00:00:00, and the offset of its \<open>tzinfo\<close> in microseconds, \<open>None\<close> for a
  naive value.  Two aware values are compared after their offsets are subtracted.
\<close>

record datetime =
  fields_us :: int
  utcoffset :: "int option"

definition instant :: "datetime \<Rightarrow> int" where
  "instant d = fields_us d - (case utcoffset d of None \<Rightarrow> 0 | Some off \<Rightarrow> off)"

text \<open>
  \<open>datetime.max\<close> is 9999-12-31T23:59:59.999999, the last microsecond of day 3652059.
\<close>

definition DATETIME_END_US :: int where
  "DATETIME_END_US = 3652059 * 86400000000"

text \<open>
  \<open>now - timedelta(hours=window_hours)\<close> for the aware UTC value \<open>now\<close>.  The
  \<open>timedelta\<close> constructor raises \<open>OverflowError\<close> beyond 999999999 days, and so does
  the subtraction when the result leaves the years 1 to 9999.
\<close>

definition cutoff_of :: "int \<Rightarrow> int \<Rightarrow> pyerror + int" where
  "cutoff_of now window_hours =
     (if window_hours div 24 < - 999999999 \<or> 999999999 < window_hours div 24 then Inl OverflowError
      else (let c = now - window_hours * 3600000000
            in if c < 0 \<or> DATETIME_END_US \<le> c then Inl OverflowError else Inr c))"

text \<open>
  The loop over the rows of the log.  \<open>fromisoformat\<close> is the standard library's parser,
  \<open>None\<close> for its \<open>ValueError\<close>; handed Python's \<open>None\<close> it raises \<open>TypeError\<close>, which
  the \<open>except ValueError\<close> clause does not catch.
\<close>

fun scan_rows :: "(string \<Rightarrow> datetime option) \<Rightarrow> int \<Rightarrow> row list \<Rightarrow> string \<Rightarrow> string \<Rightarrow> string \<Rightarrow> string \<Rightarrow> pyerror + bool" where
  "scan_rows fromisoformat cutoff [] recipient subject sender template_version = Inr False"
| "scan_rows fromisoformat cutoff (r # rest) recipient subject sender template_version =
     (case (case r ''timestamp_utc'' of None \<Rightarrow> Str [] | Some v \<Rightarrow> v) of
        PyNone \<Rightarrow> Inl TypeError
      | Str stamp \<Rightarrow>
          (case fromisoformat stamp of
             None \<Rightarrow> scan_rows fromisoformat cutoff rest recipient subject sender template_version
           | Some parsed \<Rightarrow>
               (let sent_at = (if utcoffset parsed = None then parsed\<lparr>utcoffset := Some 0\<rparr>
                               else parsed)
                in if instant sent_at < cutoff
                   then scan_rows fromisoformat cutoff rest recipient subject sender template_version
                   else if r ''recipient'' = Some (Str recipient)
                           \<and> r ''subject'' = Some (Str subject)
                           \<and> r ''sender'' = Some (Str sender)
                           \<and> r ''template_version'' = Some (Str template_version)
                   then Inr True
                   else scan_rows fromisoformat cutoff rest recipient subject sender
                          template_version)))"

text \<open>
  \<open>should_skip_send\<close>.  The log is \<open>None\<close> when no file exists at \<open>log_path\<close>, else the
  rows that \<open>csv.DictReader\<close> yields; \<open>now\<close> is the reading of the clock in UTC.
\<close>

definition should_skip_send :: "(string \<Rightarrow> datetime option) \<Rightarrow> int \<Rightarrow> row list option \<Rightarrow> string \<Rightarrow> string \<Rightarrow> string \<Rightarrow> string \<Rightarrow> int \<Rightarrow> pyerror + bool" where
  "should_skip_send fromisoformat now log recipient subject sender template_version window_hours =
     (case log of
        None \<Rightarrow> Inr False
      | Some rows \<Rightarrow>
          (case cutoff_of now window_hours of
             Inl e \<Rightarrow> Inl e
           | Inr cutoff \<Rightarrow>
               scan_rows fromisoformat cutoff rows recipient subject sender template_version))"

section \<open>The evidence extractor on Unicode text\<close>

text \<open>
  A Python string as the list of its code points.  \<open>cps\<close> turns a string of code points
  below 256 into that form.
\<close>

definition cps :: "string \<Rightarrow> nat list" where
  "cps s = map of_char s"

text \<open>
  The code points that \<open>str.split()\<close> treats as white space, and \<open>" ".join(s.split())\<close>
  on lists of code points.
\<close>

definition is_uspace :: "nat \<Rightarrow> bool" where
  "is_uspace c =
     (c \<in> set [9, 10, 11, 12, 13, 28, 29, 30, 31, 32, 133, 160, 5760, 8232, 8233, 8239, 8287,
                12288]
      \<or> (8192 \<le> c \<and> c \<le> 8202))"

fun usplit_from :: "nat list \<Rightarrow> nat list \<Rightarrow> nat list list" where
  "usplit_from cur [] = (if cur = [] then [] else [cur])"
| "usplit_from cur (c # cs) =
     (if is_uspace c then (if cur = [] then usplit_from [] cs else cur # usplit_from [] cs)
      else usplit_from (cur @ [c]) cs)"

definition ucollapse :: "nat list \<Rightarrow> nat list" where
  "ucollapse s = join [32] (usplit_from [] s)"

text \<open>
  \<open>extract_evidence\<close> on a Python string of arbitrary code points.  \<open>str_lower\<close> is
  \<open>str.lower\<close>, a parameter: it acts on the whole string, and its result can be longer
  than the string.
\<close>

definition extract_evidence_unicode :: "(nat list \<Rightarrow> nat list) \<Rightarrow> nat list \<Rightarrow> nat list" where
  "extract_evidence_unicode str_lower text =
     evidence_loop ucollapse
       [cps ''executive coach'', cps ''executive coaching'', cps ''leadership coach'']
       (str_lower text) text"

text \<open>
  The window that \<open>extract_evidence\<close> cuts for the index \<open>idx\<close>: the original text from
  60 characters before it to 120 characters after it, clipped to the text, with white
  space collapsed.
\<close>

definition uwindow :: "nat list \<Rightarrow> nat \<Rightarrow> nat list" where
  "uwindow text idx = ucollapse (slice text (idx - 60) (min (length text) (idx + 120)))"

text \<open>
  Lower-casing keeps the characters of a text in place when it maps each character to
  one character and leaves white space as it is.  \<open>str.lower\<close> does so on every text
  without the code point 304 (U+0130), the one code point whose lower-case form has two
  code points.
\<close>

definition keeps_places :: "nat list \<Rightarrow> nat list \<Rightarrow> bool" where
  "keeps_places text lowered = list_all2 (\<lambda>c l. is_uspace c \<longrightarrow> l = c) text lowered"

text \<open>
  \<open>str.lower\<close> on strings of code points below 256 and the code point 304, which becomes
  the two code points 105 and 775.
\<close>

definition sample_lower_cp :: "nat \<Rightarrow> nat list" where
  "sample_lower_cp c =
     (if (65 \<le> c \<and> c \<le> 90) \<or> (192 \<le> c \<and> c \<le> 222 \<and> c \<noteq> 215) then [c + 32]
      else if c = 304 then [105, 775]
      else [c])"

definition sample_str_lower :: "nat list \<Rightarrow> nat list" where
  "sample_str_lower s = concat (map sample_lower_cp s)"

text \<open>A text in which \<open>leadership coach\<close> occurs 216 characters before \<open>executive coach\<close>.\<close>

definition late_match_text :: "nat list" where
  "late_match_text = cps ''leadership coach'' @ replicate 200 120 @ cps ''executive coach''"

text \<open>A text in which 75 times the code point 304 stands before \<open>executive coach\<close>.\<close>

definition dotted_text :: "nat list" where
  "dotted_text = replicate 75 304 @ cps ''executive coach''"

section \<open>Documents as trees\<close>

text \<open>
  A document as the markup describes it: text nodes, elements with their children, start
  tags that are never closed (\<open>Void\<close>, as for \<open>br\<close>) and end tags that close nothing
  (\<open>StrayEnd\<close>).  \<open>events_of\<close> is the event sequence the parser reports for a node.
  A document is \<open>well_nested\<close> when every \<open>script\<close> and \<open>style\<close> tag in it belongs to
  an element, that is, it is neither left open nor a stray end tag.
\<close>

datatype node =
  Text string
| Element string "(string \<times> string option) list" "node list"
| Void string "(string \<times> string option) list"
| StrayEnd string

fun events_of :: "node \<Rightarrow> html_event list" where
  "events_of (Text d) = [Data d]"
| "events_of (Element tag attrs children) =
     StartTag tag attrs # concat (map events_of children) @ [EndTag tag]"
| "events_of (Void tag attrs) = [StartTag tag attrs]"
| "events_of (StrayEnd tag) = [EndTag tag]"

definition is_skip_tag :: "string \<Rightarrow> bool" where
  "is_skip_tag tag = (tag = ''script'' \<or> tag = ''style'')"

fun well_nested :: "node \<Rightarrow> bool" where
  "well_nested (Text d) = True"
| "well_nested (Element tag attrs children) = list_all well_nested children"
| "well_nested (Void tag attrs) = (\<not> is_skip_tag tag)"
| "well_nested (StrayEnd tag) = (\<not> is_skip_tag tag)"

text \<open>
  The text nodes of a node that lie inside no \<open>script\<close> or \<open>style\<close> element, in
  document order; \<open>hidden\<close> says that an enclosing element already is one.
\<close>

fun visible_texts :: "bool \<Rightarrow> node \<Rightarrow> string list" where
  "visible_texts hidden (Text d) = (if hidden then [] else [d])"
| "visible_texts hidden (Element tag attrs children) =
     concat (map (visible_texts (hidden \<or> is_skip_tag tag)) children)"
| "visible_texts hidden (Void tag attrs) = []"
| "visible_texts hidden (StrayEnd tag) = []"

text \<open>What \<open>handle_data\<close> keeps of a sequence of text nodes.\<close>

definition cleaned_parts :: "string list \<Rightarrow> string list" where
  "cleaned_parts ds = filter (\<lambda>p. p \<noteq> []) (map collapse ds)"

text \<open>A document with a \<open>style\<close> element nested in a \<open>script\<close> element.\<close>

definition sample_document :: "node list" where
  "sample_document =
     [Element ''p'' [] [Text ''Hello   world''],
      Element ''script'' [] [Text ''var x'', Element ''style'' [] [Text ''b {}''], Text ''more()''],
      Void ''br'' [],
      Element ''div'' [] [Element ''style'' [] [Text ''a {}''], Text '' bye '']]"

section \<open>Auxiliary notions for the duplicate-send guard\<close>

text \<open>
  What the guard looks for in one row: the time stamp is a string that parses to an
  instant not before the cutoff, and the four fields equal the proposed ones.  No upper
  bound is part of it.
\<close>

definition recent_match :: "(string \<Rightarrow> datetime option) \<Rightarrow> int \<Rightarrow> row \<Rightarrow> string \<Rightarrow> string \<Rightarrow> string \<Rightarrow> string \<Rightarrow> bool" where
  "recent_match fromisoformat cutoff r recipient subject sender template_version =
     ((case r ''timestamp_utc'' of
         Some (Str stamp) \<Rightarrow>
           (case fromisoformat stamp of None \<Rightarrow> False | Some d \<Rightarrow> cutoff \<le> instant d)
       | Some PyNone \<Rightarrow> False
       | None \<Rightarrow> (case fromisoformat [] of None \<Rightarrow> False | Some d \<Rightarrow> cutoff \<le> instant d))
      \<and> r ''recipient'' = Some (Str recipient)
      \<and> r ''subject'' = Some (Str subject)
      \<and> r ''sender'' = Some (Str sender)
      \<and> r ''template_version'' = Some (Str template_version))"

text \<open>
  The same with the interval of the specification: the instant lies between the cutoff
  and \<open>now\<close>.
\<close>

definition window_match :: "(string \<Rightarrow> datetime option) \<Rightarrow> int \<Rightarrow> int \<Rightarrow> row \<Rightarrow> string \<Rightarrow> string \<Rightarrow> string \<Rightarrow> string \<Rightarrow> bool" where
  "window_match fromisoformat cutoff now r recipient subject sender template_version =
     ((case r ''timestamp_utc'' of
         Some (Str stamp) \<Rightarrow>
           (case fromisoformat stamp of
              None \<Rightarrow> False
            | Some d \<Rightarrow> cutoff \<le> instant d \<and> instant d \<le> now)
       | Some PyNone \<Rightarrow> False
       | None \<Rightarrow>
           (case fromisoformat [] of
              None \<Rightarrow> False
            | Some d \<Rightarrow> cutoff \<le> instant d \<and> instant d \<le> now))
      \<and> r ''recipient'' = Some (Str recipient)
      \<and> r ''subject'' = Some (Str subject)
      \<and> r ''sender'' = Some (Str sender)
      \<and> r ''template_version'' = Some (Str template_version))"

text \<open>
  Sample data.  The clock reads 2026-11-04T12:00:00 UTC, which is 63929390400000000
  microseconds after 0001-01-01T00:00:00.  \<open>sample_fromisoformat\<close> is
  \<open>datetime.fromisoformat\<close> on the four strings that occur in the sample rows.
\<close>

definition sample_now :: int where
  "sample_now = 63929390400000000"

definition sample_fromisoformat :: "string \<Rightarrow> datetime option" where
  "sample_fromisoformat s =
     (if s = ''2026-11-04T10:00:00+00:00''
      then Some \<lparr>fields_us = 63929383200000000, utcoffset = Some 0\<rparr>
      else if s = ''2026-11-04T12:00:00+02:00''
      then Some \<lparr>fields_us = 63929390400000000, utcoffset = Some 7200000000\<rparr>
      else if s = ''2026-11-04T10:00:00''
      then Some \<lparr>fields_us = 63929383200000000, utcoffset = None\<rparr>
      else if s = ''2026-11-05T12:00:00+00:00''
      then Some \<lparr>fields_us = 63929476800000000, utcoffset = Some 0\<rparr>
      else None)"

definition sample_row :: "string \<Rightarrow> row" where
  "sample_row stamp =
     map_of [(''timestamp_utc'', Str stamp), (''recipient'', Str ''ann@example.com''),
             (''subject'', Str ''Welcome''), (''sender'', Str ''me@example.com''),
             (''message_id'', Str ''m1''), (''template_version'', Str ''default-v1'')]"

text \<open>
  The row that \<open>csv.DictReader\<close> yields for the line \<open>ann@example.com\<close> under the header
  \<open>recipient,timestamp_utc\<close>.
\<close>

definition short_row :: row where
  "short_row = map_of [(''recipient'', Str ''ann@example.com''), (''timestamp_utc'', PyNone)]"

section \<open>The standard library on sample inputs\<close>

text \<open>
  Concrete functions to instantiate the library with, for evaluating the scripts on
  sample inputs.  Each is the standard library's function on the inputs named with it.
\<close>

subsection \<open>The pattern of \<open>extract_location\<close>\<close>

text \<open>
  The source builds the pattern from a raw string in which every backslash is doubled.
  A doubled backslash in a pattern matches one backslash character, so the pattern for
  the code \<open>ST\<close> reads: a backslash, the letter \<open>b\<close>, then as group 1 a capital
  letter and one or more small letters, optionally followed by a backslash, one or more
  letters \<open>s\<close>, a capital letter and one or more small letters; then a comma, a
  backslash, any number of letters \<open>s\<close>, the code, a backslash, and the letter \<open>b\<close>.
  The letter classes are \<open>A\<close> to \<open>Z\<close> and \<open>a\<close> to \<open>z\<close>.  Every repetition is followed by
  a character outside its class, so matching greedily loses no match.
\<close>

definition is_upper_az :: "char \<Rightarrow> bool" where
  "is_upper_az c = (65 \<le> (of_char c :: nat) \<and> (of_char c :: nat) \<le> 90)"

definition is_lower_az :: "char \<Rightarrow> bool" where
  "is_lower_az c = (97 \<le> (of_char c :: nat) \<and> (of_char c :: nat) \<le> 122)"

text \<open>\<open>[A-Z][a-z]+\<close> at the head of a string: the match and the rest.\<close>

fun match_word :: "string \<Rightarrow> (string \<times> string) option" where
  "match_word [] = None"
| "match_word (c # cs) =
     (if is_upper_az c \<and> takeWhile is_lower_az cs \<noteq> []
      then Some (c # takeWhile is_lower_az cs, dropWhile is_lower_az cs)
      else None)"

text \<open>The pattern from the comma on, at the head of a string.\<close>

definition match_tail :: "string \<Rightarrow> string \<Rightarrow> bool" where
  "match_tail abbr s =
     (case s of
        c1 # c2 # rest \<Rightarrow>
          c1 = CHR '','' \<and> c2 = CHR 0x5C
          \<and> prefix (abbr @ [CHR 0x5C, CHR ''b'']) (dropWhile (\<lambda>c. c = CHR ''s'') rest)
      | _ \<Rightarrow> False)"

text \<open>The whole pattern at the head of a string: group 1 of the match.\<close>

definition match_city_state :: "string \<Rightarrow> string \<Rightarrow> string option" where
  "match_city_state abbr s =
     (case s of
        c1 # c2 # rest \<Rightarrow>
          if c1 = CHR 0x5C \<and> c2 = CHR ''b'' then
            (case match_word rest of
               None \<Rightarrow> None
             | Some (w1, r1) \<Rightarrow>
                 (let second =
                        (case r1 of
                           c # r2 \<Rightarrow>
                             if c = CHR 0x5C \<and> takeWhile (\<lambda>c. c = CHR ''s'') r2 \<noteq> [] then
                               (case match_word (dropWhile (\<lambda>c. c = CHR ''s'') r2) of
                                  Some (w2, r3) \<Rightarrow>
                                    if match_tail abbr r3
                                    then Some (w1 @ [CHR 0x5C] @ takeWhile (\<lambda>c. c = CHR ''s'') r2 @ w2)
                                    else None
                                | None \<Rightarrow> None)
                             else None
                         | [] \<Rightarrow> None)
                  in case second of
                       Some g \<Rightarrow> Some g
                     | None \<Rightarrow> if match_tail abbr r1 then Some w1 else None))
          else None
      | _ \<Rightarrow> None)"

text \<open>\<open>re.search\<close>: the match at the leftmost position that has one.\<close>

fun city_state_search :: "string \<Rightarrow> string \<Rightarrow> string option" where
  "city_state_search abbr [] = None"
| "city_state_search abbr (c # cs) =
     (case match_city_state abbr (c # cs) of
        Some g \<Rightarrow> Some g
      | None \<Rightarrow> city_state_search abbr cs)"

subsection \<open>URLs\<close>

text \<open>
  \<open>urlparse\<close> on links without white space and control characters and without a
  bracketed host: the scheme ends at the first colon if all before it are scheme
  characters, the network location follows \<open>//\<close> up to the next \<open>/\<close>, \<open>?\<close> or \<open>#\<close>,
  and a network location with only one of the two brackets is rejected with
  \<open>ValueError\<close>.  The query lies between the first \<open>?\<close> and the fragment.
\<close>

definition is_scheme_char :: "char \<Rightarrow> bool" where
  "is_scheme_char c =
     (is_upper_az c \<or> is_lower_az c \<or> (48 \<le> (of_char c :: nat) \<and> (of_char c :: nat) \<le> 57)
      \<or> c \<in> set ''+-.'')"

definition strip_scheme :: "string \<Rightarrow> string" where
  "strip_scheme url =
     (case str_find '':'' url of
        None \<Rightarrow> url
      | Some i \<Rightarrow>
          if 0 < i \<and> (is_upper_az (hd url) \<or> is_lower_az (hd url))
             \<and> list_all is_scheme_char (take i url)
          then drop (Suc i) url else url)"

definition py_urlparse :: "string \<Rightarrow> pyerror + parsed_url" where
  "py_urlparse url =
     (let rest = strip_scheme url;
          delim = (\<lambda>c. c \<in> set ''/?#'');
          loc = (if prefix ''//'' rest then takeWhile (\<lambda>c. \<not> delim c) (drop 2 rest) else []);
          rest = (if prefix ''//'' rest then dropWhile (\<lambda>c. \<not> delim c) (drop 2 rest) else rest);
          rest = takeWhile (\<lambda>c. c \<noteq> CHR ''#'') rest;
          q = (case str_find ''?'' rest of None \<Rightarrow> [] | Some i \<Rightarrow> drop (Suc i) rest)
      in if (CHR ''['' \<in> set loc) \<noteq> (CHR '']'' \<in> set loc) then Inl ValueError
         else Inr \<lparr>netloc = loc, query = q\<rparr>)"

text \<open>\<open>s.split(sep)\<close> for a separator of one character.\<close>

fun split_on :: "char \<Rightarrow> string \<Rightarrow> string \<Rightarrow> string list" where
  "split_on sep cur [] = [cur]"
| "split_on sep cur (c # cs) =
     (if c = sep then cur # split_on sep [] cs else split_on sep (cur @ [c]) cs)"

text \<open>
  \<open>parse_qs\<close> on queries without \<open>%\<close> and \<open>+\<close>: the fields are separated by \<open>&\<close>, a
  field counts when it has a \<open>=\<close> and a value that is not empty, and the values of one
  name are collected in order.
\<close>

definition py_parse_qs :: "string \<Rightarrow> string \<Rightarrow> string list option" where
  "py_parse_qs q k =
     (let fields = filter (\<lambda>f. CHR ''='' \<in> set f) (split_on CHR ''&'' [] q);
          pairs = map (\<lambda>f. (takeWhile (\<lambda>c. c \<noteq> CHR ''='') f,
                              drop 1 (dropWhile (\<lambda>c. c \<noteq> CHR ''='') f))) fields;
          vals = map snd (filter (\<lambda>(n, v). n = k \<and> v \<noteq> []) pairs)
      in if vals = [] then None else Some vals)"

text \<open>
  \<open>quote_plus\<close> on strings of code points below 128: letters, digits and \<open>_.-~\<close> stay,
  a space becomes \<open>+\<close>, and any other character becomes \<open>%\<close> and its two hexadecimal
  digits.
\<close>

definition hex_digit :: "nat \<Rightarrow> char" where
  "hex_digit n = ''0123456789ABCDEF'' ! n"

definition quote_char :: "char \<Rightarrow> string" where
  "quote_char c =
     (if is_upper_az c \<or> is_lower_az c \<or> (48 \<le> (of_char c :: nat) \<and> (of_char c :: nat) \<le> 57)
         \<or> c \<in> set ''_.-~''
      then [c]
      else if c = CHR '' '' then ''+''
      else [CHR ''%'', hex_digit ((of_char c :: nat) div 16), hex_digit ((of_char c :: nat) mod 16)])"

definition py_quote_plus :: "string \<Rightarrow> string" where
  "py_quote_plus s = concat (map quote_char s)"

subsection \<open>Base64\<close>

text \<open>
  \<open>urlsafe_b64decode\<close> in its default, lenient mode: characters outside the alphabet
  are skipped; a \<open>=\<close> ends the input once two characters of a group have been read and
  the pads complete the group; the input is rejected when it ends inside a group.
  \<open>py_b64_text\<close> is the decoded text when the decoded bytes are below 128.
\<close>

definition b64_value :: "char \<Rightarrow> nat option" where
  "b64_value c =
     (let n = (of_char c :: nat)
      in if 65 \<le> n \<and> n \<le> 90 then Some (n - 65)
         else if 97 \<le> n \<and> n \<le> 122 then Some (n - 71)
         else if 48 \<le> n \<and> n \<le> 57 then Some (n + 4)
         else if c = CHR ''+'' \<or> c = CHR ''-'' then Some 62
         else if c = CHR ''/'' \<or> c = CHR ''_'' then Some 63
         else None)"

fun b64_scan :: "nat \<Rightarrow> nat \<Rightarrow> nat \<Rightarrow> string \<Rightarrow> nat list option" where
  "b64_scan quad_pos leftchar pads [] = (if quad_pos = 0 then Some [] else None)"
| "b64_scan quad_pos leftchar pads (c # cs) =
     (if c = CHR ''='' then
        (if 2 \<le> quad_pos \<and> 4 \<le> quad_pos + (pads + 1) then Some []
         else b64_scan quad_pos leftchar (if 2 \<le> quad_pos then pads + 1 else pads) cs)
      else case b64_value c of
        None \<Rightarrow> b64_scan quad_pos leftchar pads cs
      | Some v \<Rightarrow>
          if quad_pos = 0 then b64_scan 1 v 0 cs
          else if quad_pos = 1
          then map_option ((#) (leftchar * 4 + v div 16)) (b64_scan 2 (v mod 16) 0 cs)
          else if quad_pos = 2
          then map_option ((#) (leftchar * 16 + v div 4)) (b64_scan 3 (v mod 4) 0 cs)
          else map_option ((#) (leftchar * 64 + v)) (b64_scan 0 0 0 cs))"

definition py_b64_text :: "string \<Rightarrow> string option" where
  "py_b64_text p = map_option (map char_of) (b64_scan 0 0 0 p)"

subsection \<open>Pages and the network\<close>

text \<open>
  A page of search results with three result containers, and a page of results whose
  first link is relative.  \<open>sample_events\<close> is the event sequence of \<open>HTMLParser.feed\<close>
  on these two pages and on pages without markup and character references, which are
  one text node.
\<close>

definition results_page :: string where
  "results_page =
     ''<li class=b_algo><a href=http://a.example/coach>A</a></li>'' @
     ''<li class=b_algo><a href=http://b.example/coach>B</a></li>'' @
     ''<li class=b_algo><a href=http://c.example/coach>C</a></li>''"

definition relative_page :: string where
  "relative_page =
     ''<li class=b_algo><a href=httpx/page>X</a><a href=http://a.example/coach>A</a></li>''"

definition sample_events :: "string \<Rightarrow> html_event list" where
  "sample_events html =
     (if html = results_page then
        [StartTag ''li'' [(''class'', Some ''b_algo'')],
         StartTag ''a'' [(''href'', Some ''http://a.example/coach'')],
         Data ''A'', EndTag ''a'', EndTag ''li'',
         StartTag ''li'' [(''class'', Some ''b_algo'')],
         StartTag ''a'' [(''href'', Some ''http://b.example/coach'')],
         Data ''B'', EndTag ''a'', EndTag ''li'',
         StartTag ''li'' [(''class'', Some ''b_algo'')],
         StartTag ''a'' [(''href'', Some ''http://c.example/coach'')],
         Data ''C'', EndTag ''a'', EndTag ''li'']
      else if html = relative_page then
        [StartTag ''li'' [(''class'', Some ''b_algo'')],
         StartTag ''a'' [(''href'', Some ''httpx/page'')],
         Data ''X'', EndTag ''a'',
         StartTag ''a'' [(''href'', Some ''http://a.example/coach'')],
         Data ''A'', EndTag ''a'', EndTag ''li'']
      else [Data html])"

text \<open>A page that passes the qualification filter.\<close>

definition coach_page :: string where
  "coach_page = ''Jane Doe offers executive coaching for leaders in Boston''"

text \<open>
  The library with Python's behaviour on the sample inputs, over a network \<open>net\<close>.  The
  sample pages have no \<open>title\<close> and no \<open>h1\<close> element.  The pattern of
  \<open>extract_linkedin\<close> is not a valid pattern: its character class contains the range from
  a backslash to a slash, whose bounds are in the wrong order, so \<open>re.search\<close> raises
  \<open>re.error\<close> whatever the text.
\<close>

definition python_lib :: "('w \<Rightarrow> string \<Rightarrow> (pyerror + string) \<times> 'w) \<Rightarrow> 'w stdlib" where
  "python_lib net =
     \<lparr>http_get = net,
      urlparse = py_urlparse,
      parse_qs = py_parse_qs,
      b64_text = py_b64_text,
      quote_plus = py_quote_plus,
      html_events = sample_events,
      html_unescape = (\<lambda>s. s),
      re_title = (\<lambda>html. None),
      re_h1 = (\<lambda>html. None),
      re_sub_tags = (\<lambda>s. s),
      re_linkedin = (\<lambda>html. Inl ReError),
      re_city_state = city_state_search\<rparr>"

text \<open>
  A network whose state is the list of the addresses requested so far.  Every search
  request yields \<open>results_page\<close>, the three result links yield \<open>coach_page\<close>, and any
  other request fails.
\<close>

definition sample_net :: "string list \<Rightarrow> string \<Rightarrow> (pyerror + string) \<times> string list" where
  "sample_net requested url =
     (if prefix ''https://www.bing.com/search?q='' url then Inr results_page
      else if url \<in> set [''http://a.example/coach'', ''http://b.example/coach'',
                           ''http://c.example/coach'']
      then Inr coach_page
      else Inl NetworkError,
      requested @ [url])"

text \<open>The same network with \<open>relative_page\<close> as the page of search results.\<close>

definition relative_net :: "string list \<Rightarrow> string \<Rightarrow> (pyerror + string) \<times> string list" where
  "relative_net requested url =
     (if prefix ''https://www.bing.com/search?q='' url then Inr relative_page
      else Inl NetworkError,
      requested @ [url])"

section \<open>Auxiliary notions for the result links\<close>

text \<open>A list without its repetitions: of equal elements the first one stays.\<close>

fun keep_first :: "'a list \<Rightarrow> 'a list" where
  "keep_first [] = []"
| "keep_first (x # xs) = x # filter (\<lambda>y. y \<noteq> x) (keep_first xs)"

text \<open>A link in absolute \<open>http\<close> or \<open>https\<close> form.\<close>

definition is_absolute_http :: "string \<Rightarrow> bool" where
  "is_absolute_http s = (prefix ''http://'' s \<or> prefix ''https://'' s)"

text \<open>The links that \<open>BingResultParser\<close> collects from a page.\<close>

definition page_links :: "'w stdlib \<Rightarrow> string \<Rightarrow> string list" where
  "page_links lib html_text = links (brp_feed (html_events lib html_text))"

text \<open>The domain that \<open>build_candidates\<close> computes for a link, when \<open>urlparse\<close> accepts it.\<close>

definition domain_of :: "'w stdlib \<Rightarrow> string \<Rightarrow> string option" where
  "domain_of lib link =
     (case urlparse lib link of Inl e \<Rightarrow> None | Inr parsed \<Rightarrow> Some (lower (netloc parsed)))"

section \<open>Auxiliary notions for the candidate pipeline\<close>

text \<open>
  What holds of the two variables of \<open>build_candidates\<close> between any two steps: the
  leads have pairwise different domains, each domain was entered in \<open>seen_domains\<close>
  and does not contain \<open>linkedin.com\<close>, each lead has the fixed role, a name and a
  location, and the leads are no more than the limit.
\<close>

definition pipeline_inv :: "'w stdlib \<Rightarrow> int \<Rightarrow> 'w pipeline \<Rightarrow> bool" where
  "pipeline_inv lib limit st =
     (distinct (map (\<lambda>l. domain_of lib (website_url l)) (leads st))
      \<and> list_all (\<lambda>l. \<exists>d. domain_of lib (website_url l) = Some d
                               \<and> d \<in> seen_domains st \<and> \<not> contains ''linkedin.com'' d)
           (leads st)
      \<and> list_all (\<lambda>l. role l = ''Executive Coach'' \<and> name l \<noteq> [] \<and> location l \<noteq> [])
           (leads st)
      \<and> int (length (leads st)) \<le> max 0 limit)"

section \<open>Properties of the string functions\<close>

lemma list_ex_contains_iff:
  "list_ex (\<lambda>k. contains k s) ks \<longleftrightarrow> (\<exists>k\<in>set ks. contains k s)"
  by (simp add: list_ex_iff)

lemma find_from_Some:
  "find_from i p s = Some j \<Longrightarrow> i \<le> j \<and> j - i \<le> length s \<and> prefix p (drop (j - i) s)"
proof (induction s arbitrary: i)
  case Nil
  then show ?case by (auto split: if_splits)
next
  case (Cons c cs)
  show ?case
  proof (cases "prefix p (c # cs)")
    case True
    with Cons.prems show ?thesis by simp
  next
    case False
    with Cons.prems have "find_from (Suc i) p cs = Some j" by simp
    from Cons.IH [OF this]
    have ih: "Suc i \<le> j" "j - Suc i \<le> length cs" "prefix p (drop (j - Suc i) cs)"
      by simp_all
    from ih(1) have "j - i = Suc (j - Suc i)" by simp
    with ih show ?thesis by simp
  qed
qed

lemma find_from_None:
  "find_from i p s = None \<longleftrightarrow> (\<forall>k\<le>length s. \<not> prefix p (drop k s))"
proof (induction s arbitrary: i)
  case Nil
  then show ?case by auto
next
  case (Cons c cs)
  show ?case
  proof (cases "prefix p (c # cs)")
    case True
    then show ?thesis by (auto intro: exI [of _ 0])
  next
    case False
    have "(\<forall>k\<le>length (c # cs). \<not> prefix p (drop k (c # cs))) \<longleftrightarrow>
          (\<forall>k\<le>length cs. \<not> prefix p (drop k cs))"
    proof
      assume a: "\<forall>k\<le>length (c # cs). \<not> prefix p (drop k (c # cs))"
      show "\<forall>k\<le>length cs. \<not> prefix p (drop k cs)"
      proof (intro allI impI)
        fix k assume "k \<le> length cs"
        with a have "\<not> prefix p (drop (Suc k) (c # cs))" by (metis Suc_le_mono length_Cons)
        then show "\<not> prefix p (drop k cs)" by simp
      qed
    next
      assume a: "\<forall>k\<le>length cs. \<not> prefix p (drop k cs)"
      show "\<forall>k\<le>length (c # cs). \<not> prefix p (drop k (c # cs))"
      proof (intro allI impI)
        fix k assume "k \<le> length (c # cs)"
        then show "\<not> prefix p (drop k (c # cs))"
          using a False by (cases k) auto
      qed
    qed
    with False Cons.IH [of "Suc i"] show ?thesis by simp
  qed
qed

lemma find_from_least:
  "find_from i p s = Some j \<Longrightarrow> k < j - i \<Longrightarrow> \<not> prefix p (drop k s)"
proof (induction s arbitrary: i k)
  case Nil
  then show ?case by (auto split: if_splits)
next
  case (Cons c cs)
  show ?case
  proof (cases "prefix p (c # cs)")
    case True
    with Cons.prems show ?thesis by simp
  next
    case False
    with Cons.prems have f: "find_from (Suc i) p cs = Some j" by simp
    show ?thesis
    proof (cases k)
      case 0
      with False show ?thesis by simp
    next
      case (Suc k')
      from find_from_Some [OF f] have "Suc i \<le> j" by simp
      with Cons.prems(2) Suc have "k' < j - Suc i" by simp
      from Cons.IH [OF f this] Suc show ?thesis by simp
    qed
  qed
qed

lemma str_find_Some:
  "str_find p s = Some j \<Longrightarrow> j \<le> length s \<and> prefix p (drop j s)"
  using find_from_Some [of 0 p s j] by (simp add: str_find_def)

lemma str_find_least:
  "str_find p s = Some j \<Longrightarrow> k < j \<Longrightarrow> \<not> prefix p (drop k s)"
  using find_from_least [of 0 p s j k] by (simp add: str_find_def)

lemma contains_iff:
  "contains p s \<longleftrightarrow> (\<exists>k\<le>length s. prefix p (drop k s))"
  using find_from_None [of 0 p s] by (auto simp: contains_def str_find_def)

lemma str_find_in_range:
  assumes "str_find p s = Some j"
  shows "j + length p \<le> length s"
proof -
  from str_find_Some [OF assms] have "j \<le> length s" "prefix p (drop j s)" by simp_all
  then have "length p \<le> length s - j" by (metis length_drop prefix_length_le)
  with \<open>j \<le> length s\<close> show ?thesis by simp
qed

lemma join_Cons:
  "join sep (x # xs) = (if xs = [] then x else x @ sep @ join sep xs)"
  by (cases xs) simp_all

lemma length_join_split_from:
  "length (join '' '' (split_from cur s)) \<le> length cur + length s"
proof (induction s arbitrary: cur)
  case Nil
  then show ?case by simp
next
  case (Cons c cs)
  show ?case
  proof (cases "is_space c")
    case True
    show ?thesis
    proof (cases "cur = []")
      case True
      with \<open>is_space c\<close> Cons.IH [of "[]"] show ?thesis by simp
    next
      case False
      with \<open>is_space c\<close> Cons.IH [of "[]"] show ?thesis by (simp add: join_Cons)
    qed
  next
    case False
    with Cons.IH [of "cur @ [c]"] show ?thesis by simp
  qed
qed

lemma length_collapse: "length (collapse s) \<le> length s"
  using length_join_split_from [of "[]" s] by (simp add: collapse_def split_ws_def)

lemma split_from_clean:
  "\<forall>c\<in>set cur. \<not> is_space c \<Longrightarrow> w \<in> set (split_from cur s) \<Longrightarrow>
     w \<noteq> [] \<and> (\<forall>c\<in>set w. \<not> is_space c)"
proof (induction s arbitrary: cur)
  case Nil
  show ?case
  proof (cases "cur = []")
    case True
    with Nil.prems(2) show ?thesis by simp
  next
    case False
    with Nil.prems(2) have "w = cur" by simp
    with False Nil.prems(1) show ?thesis by simp
  qed
next
  case (Cons d ds)
  show ?case
  proof (cases "is_space d")
    case sp: True
    show ?thesis
    proof (cases "cur = []")
      case True
      with sp Cons.prems(2) have "w \<in> set (split_from [] ds)" by simp
      then show ?thesis by (rule Cons.IH [rotated]) simp
    next
      case False
      with sp Cons.prems(2) have "w = cur \<or> w \<in> set (split_from [] ds)" by simp
      then show ?thesis
      proof
        assume "w = cur"
        with False Cons.prems(1) show ?thesis by simp
      next
        assume "w \<in> set (split_from [] ds)"
        then show ?thesis by (rule Cons.IH [rotated]) simp
      qed
    qed
  next
    case False
    with Cons.prems(2) have "w \<in> set (split_from (cur @ [d]) ds)" by simp
    then show ?thesis
    proof (rule Cons.IH [rotated])
      show "\<forall>c\<in>set (cur @ [d]). \<not> is_space c"
        using False Cons.prems(1) by simp
    qed
  qed
qed

lemma split_ws_clean:
  "w \<in> set (split_ws s) \<Longrightarrow> w \<noteq> [] \<and> (\<forall>c\<in>set w. \<not> is_space c)"
  using split_from_clean [of "[]" w s] by (simp add: split_ws_def)

lemma split_from_nonempty:
  "cur \<noteq> [] \<or> (\<exists>c\<in>set s. \<not> is_space c) \<Longrightarrow> split_from cur s \<noteq> []"
proof (induction s arbitrary: cur)
  case Nil
  then show ?case by simp
next
  case (Cons c cs)
  show ?case
  proof (cases "is_space c")
    case True
    show ?thesis
    proof (cases "cur = []")
      case True
      with \<open>is_space c\<close> Cons.prems have "\<exists>c\<in>set cs. \<not> is_space c" by auto
      with Cons.IH [of "[]"] True \<open>is_space c\<close> show ?thesis by simp
    next
      case False
      with \<open>is_space c\<close> show ?thesis by simp
    qed
  next
    case False
    with Cons.IH [of "cur @ [c]"] show ?thesis by simp
  qed
qed

lemma join_eq_Nil:
  "ws \<noteq> [] \<Longrightarrow> \<forall>w\<in>set ws. w \<noteq> [] \<Longrightarrow> join sep ws \<noteq> []"
  by (cases ws) (simp_all add: join_Cons)

lemma collapse_nonempty:
  assumes "\<exists>c\<in>set s. \<not> is_space c"
  shows "collapse s \<noteq> []"
proof -
  from assms have "split_ws s \<noteq> []"
    using split_from_nonempty [of "[]" s] by (simp add: split_ws_def)
  moreover have "\<forall>w\<in>set (split_ws s). w \<noteq> []"
    using split_ws_clean by blast
  ultimately show ?thesis
    unfolding collapse_def by (rule join_eq_Nil)
qed

lemma split_from_all_space:
  "\<forall>c\<in>set s. is_space c \<Longrightarrow> split_from [] s = []"
  by (induction s) simp_all

lemma collapse_empty_iff: "collapse s = [] \<longleftrightarrow> (\<forall>c\<in>set s. is_space c)"
proof
  assume "collapse s = []"
  then show "\<forall>c\<in>set s. is_space c"
    using collapse_nonempty [of s] by blast
next
  assume "\<forall>c\<in>set s. is_space c"
  then show "collapse s = []"
    by (simp add: collapse_def split_ws_def split_from_all_space)
qed

lemma split_from_word:
  "\<forall>c\<in>set w. \<not> is_space c \<Longrightarrow> split_from cur (w @ s) = split_from (cur @ w) s"
  by (induction w arbitrary: cur) simp_all

lemma split_from_join:
  "\<forall>w\<in>set ws. w \<noteq> [] \<and> (\<forall>c\<in>set w. \<not> is_space c) \<Longrightarrow> split_from [] (join '' '' ws) = ws"
proof (induction ws)
  case Nil
  then show ?case by simp
next
  case (Cons w ws)
  then have w: "w \<noteq> []" "\<forall>c\<in>set w. \<not> is_space c" by simp_all
  show ?case
  proof (cases "ws = []")
    case True
    with w split_from_word [of w "[]" "[]"] show ?thesis by simp
  next
    case False
    have "split_from [] (w @ '' '' @ join '' '' ws) = split_from w ('' '' @ join '' '' ws)"
      using split_from_word [OF w(2), of "[]"] by simp
    also have "\<dots> = w # split_from [] (join '' '' ws)"
      using w(1) by (simp add: is_space_def)
    also have "\<dots> = w # ws"
      using Cons by simp
    finally show ?thesis using False by (simp add: join_Cons)
  qed
qed

lemma join_join_concat:
  "\<forall>ws\<in>set wss. ws \<noteq> [] \<Longrightarrow> join sep (map (join sep) wss) = join sep (concat wss)"
proof (induction wss)
  case Nil
  then show ?case by simp
next
  case (Cons ws wss)
  have app: "\<And>xs ys. xs \<noteq> [] \<Longrightarrow> ys \<noteq> [] \<Longrightarrow> join sep (xs @ ys) = join sep xs @ sep @ join sep ys"
  proof -
    fix xs ys :: "'a list list"
    assume "xs \<noteq> []" "ys \<noteq> []"
    then show "join sep (xs @ ys) = join sep xs @ sep @ join sep ys"
      by (induction xs) (auto simp: join_Cons)
  qed
  show ?case
  proof (cases "wss = []")
    case True
    then show ?thesis by simp
  next
    case False
    with Cons.prems have ne: "concat wss \<noteq> []" "ws \<noteq> []" by (cases wss; auto)+
    with Cons False show ?thesis by (simp add: join_Cons app)
  qed
qed

lemma contains_prefix_mono:
  "prefix p q \<Longrightarrow> contains q s \<Longrightarrow> contains p s"
  unfolding contains_iff using prefix_order.trans by blast

lemma str_find_None_iff: "str_find p s = None \<longleftrightarrow> \<not> contains p s"
  by (simp add: contains_def)

lemma nat_max_sub: "nat (max 0 (int i - 60)) = i - 60"
  by arith

text \<open>Collapsing white space in a list of code points.\<close>

lemma length_join_usplit_from:
  "length (join [32] (usplit_from cur s)) \<le> length cur + length s"
proof (induction s arbitrary: cur)
  case Nil
  then show ?case by simp
next
  case (Cons c cs)
  show ?case
  proof (cases "is_uspace c")
    case True
    show ?thesis
    proof (cases "cur = []")
      case True
      with \<open>is_uspace c\<close> Cons.IH [of "[]"] show ?thesis by simp
    next
      case False
      with \<open>is_uspace c\<close> Cons.IH [of "[]"] show ?thesis by (simp add: join_Cons)
    qed
  next
    case False
    with Cons.IH [of "cur @ [c]"] show ?thesis by simp
  qed
qed

lemma length_ucollapse: "length (ucollapse s) \<le> length s"
  using length_join_usplit_from [of "[]" s] by (simp add: ucollapse_def)

lemma usplit_from_words:
  "cur \<noteq> [] \<or> (\<exists>c\<in>set s. \<not> is_uspace c) \<Longrightarrow>
     usplit_from cur s \<noteq> [] \<and> hd (usplit_from cur s) \<noteq> []"
proof (induction s arbitrary: cur)
  case Nil
  then show ?case by simp
next
  case (Cons c cs)
  show ?case
  proof (cases "is_uspace c")
    case sp: True
    show ?thesis
    proof (cases "cur = []")
      case True
      with sp Cons.prems have "\<exists>c\<in>set cs. \<not> is_uspace c" by auto
      with Cons.IH [of "[]"] True sp show ?thesis by simp
    next
      case False
      with sp show ?thesis by simp
    qed
  next
    case False
    with Cons.IH [of "cur @ [c]"] show ?thesis by simp
  qed
qed

lemma ucollapse_nonempty:
  assumes "\<exists>c\<in>set s. \<not> is_uspace c"
  shows "ucollapse s \<noteq> []"
proof -
  from assms usplit_from_words [of "[]" s]
  obtain w ws where "usplit_from [] s = w # ws" "w \<noteq> []"
    by (cases "usplit_from [] s") auto
  then show ?thesis by (simp add: ucollapse_def join_Cons)
qed

lemma usplit_from_all_space:
  "\<forall>c\<in>set s. is_uspace c \<Longrightarrow> usplit_from [] s = []"
  by (induction s) simp_all

lemma evidence_loop_Some:
  "str_find phrase lowered = Some idx \<Longrightarrow>
     evidence_loop ucollapse (phrase # phrases) lowered text = uwindow text idx"
  by (simp add: uwindow_def Let_def nat_max_sub)

lemma evidence_loop_None:
  "str_find phrase lowered = None \<Longrightarrow>
     evidence_loop f (phrase # phrases) lowered text = evidence_loop f phrases lowered text"
  by simp

lemma length_uwindow: "length (uwindow text idx) \<le> 180"
proof -
  have "length (slice text (idx - 60) (min (length text) (idx + 120))) \<le> 180"
    by (simp add: slice_def)
  with length_ucollapse [of "slice text (idx - 60) (min (length text) (idx + 120))"]
  show ?thesis unfolding uwindow_def by linarith
qed

lemma uwindow_nonempty:
  assumes found: "str_find (c # p) lowered = Some idx"
    and places: "keeps_places text lowered"
    and c: "\<not> is_uspace c"
  shows "uwindow text idx \<noteq> []"
proof -
  from places have len: "length lowered = length text"
    by (simp add: keeps_places_def list_all2_lengthD)
  from str_find_in_range [OF found] len have idx: "idx < length text"
    by simp
  from str_find_Some [OF found] have "prefix (c # p) (drop idx lowered)" by simp
  then have "drop idx lowered ! 0 = c"
    by (auto simp: prefix_def)
  with idx len have lc: "lowered ! idx = c"
    by simp
  have ns: "\<not> is_uspace (text ! idx)"
  proof
    assume sp: "is_uspace (text ! idx)"
    from places idx have "is_uspace (text ! idx) \<longrightarrow> lowered ! idx = text ! idx"
      unfolding keeps_places_def by (rule list_all2_nthD)
    with sp lc have "text ! idx = c" by simp
    with sp c show False by simp
  qed
  have "text ! idx \<in> set (slice text (idx - 60) (min (length text) (idx + 120)))"
  proof -
    let ?a = "idx - 60"
    have "text ! idx = drop ?a text ! (idx - ?a)"
      using idx by simp
    also have "\<dots> = take (min (length text) (idx + 120) - ?a) (drop ?a text) ! (idx - ?a)"
      using idx by simp
    also have "\<dots> \<in> set (take (min (length text) (idx + 120) - ?a) (drop ?a text))"
      using idx by (intro nth_mem) simp
    finally show ?thesis by (simp add: slice_def)
  qed
  with ns show ?thesis
    unfolding uwindow_def by (intro ucollapse_nonempty) blast
qed

lemma cps_heads:
  "cps ''executive coach'' = 101 # cps ''xecutive coach''"
  "cps ''leadership coach'' = 108 # cps ''eadership coach''"
  "prefix (cps ''executive coach'') (cps ''executive coaching'')"
  by (simp_all add: cps_def)

text \<open>Searching and splitting behind a run of characters that cannot start a match or end a word.\<close>

lemma find_from_skip:
  "p \<noteq> [] \<Longrightarrow> hd p \<notin> set pre \<Longrightarrow> find_from i p (pre @ s) = find_from (i + length pre) p s"
proof (induction pre arbitrary: i)
  case Nil
  then show ?case by simp
next
  case (Cons x pre)
  from Cons.prems have "\<not> prefix p (x # pre @ s)"
    by (cases p) auto
  with Cons.IH [of "Suc i"] Cons.prems show ?case by simp
qed

lemma find_from_here: "prefix p s \<Longrightarrow> find_from i p s = Some i"
  by (cases s) simp_all

lemma usplit_from_word:
  "\<forall>c\<in>set a. \<not> is_uspace c \<Longrightarrow> usplit_from cur (a @ s) = usplit_from (cur @ a) s"
  by (induction a arbitrary: cur) simp_all

lemma usplit_from_last_word:
  "\<forall>c\<in>set a. \<not> is_uspace c \<Longrightarrow> usplit_from cur a = (if cur @ a = [] then [] else [cur @ a])"
  using usplit_from_word [of a cur "[]"] by simp

lemma find_from_step:
  "find_from i p (c # cs) = (if prefix p (c # cs) then Some i else find_from (i + 1) p cs)"
  by simp

section \<open>The qualification filter\<close>

text \<open>
  Claim C6.  \<open>build_candidates\<close> keeps a page text exactly when
  \<open>looks_like_executive_coach\<close> holds of it and \<open>contains_excluded_keywords\<close> does not.
  That is the case if and only if the lower-cased text contains at least one trigger
  phrase and contains none of the exclusion keywords, each as a substring.  In particular
  a text containing \<open>executive coaching\<close> and no exclusion keyword is kept, and a text
  containing both \<open>executive coach\<close> and \<open>devops\<close> is not.
\<close>

theorem qualification_filter:
  "((looks_like_executive_coach text \<and> \<not> contains_excluded_keywords text) \<longleftrightarrow>
      ((\<exists>p\<in>set TRIGGER_PHRASES. contains p (lower text))
        \<and> (\<forall>k\<in>set EXCLUDE_KEYWORDS. \<not> contains k (lower text))))
   \<and> (contains ''executive coaching'' (lower text)
        \<and> (\<forall>k\<in>set EXCLUDE_KEYWORDS. \<not> contains k (lower text))
        \<longrightarrow> looks_like_executive_coach text \<and> \<not> contains_excluded_keywords text)
   \<and> (contains ''executive coach'' (lower text) \<and> contains ''devops'' (lower text)
        \<longrightarrow> \<not> (looks_like_executive_coach text \<and> \<not> contains_excluded_keywords text))"
proof -
  have trig: "looks_like_executive_coach text \<longleftrightarrow> (\<exists>p\<in>set TRIGGER_PHRASES. contains p (lower text))"
    by (simp add: looks_like_executive_coach_def TRIGGER_PHRASES_def Let_def)
  have excl: "contains_excluded_keywords text \<longleftrightarrow> (\<exists>k\<in>set EXCLUDE_KEYWORDS. contains k (lower text))"
    by (simp add: contains_excluded_keywords_def list_ex_contains_iff Let_def)
  have coaching: "''executive coaching'' \<in> set TRIGGER_PHRASES"
    by (simp add: TRIGGER_PHRASES_def)
  have devops: "''devops'' \<in> set EXCLUDE_KEYWORDS"
    by (simp add: EXCLUDE_KEYWORDS_def)
  show ?thesis
    using trig excl coaching devops by blast
qed

theorem qualification_filter_witness:
  "looks_like_executive_coach ''We offer Executive Coaching for leaders''
   \<and> \<not> contains_excluded_keywords ''We offer Executive Coaching for leaders''
   \<and> \<not> (looks_like_executive_coach ''Executive coach for DevOps leaders''
          \<and> \<not> contains_excluded_keywords ''Executive coach for DevOps leaders'')"
  using qualification_filter [of "''We offer Executive Coaching for leaders''"]
        qualification_filter [of "''Executive coach for DevOps leaders''"]
  by (simp add: TRIGGER_PHRASES_def EXCLUDE_KEYWORDS_def lower_def contains_def str_find_def)

section \<open>The evidence extractor\<close>

text \<open>
  On a text of code points below 256, with \<open>str.lower\<close> as it is on that range, the
  function on lists of code points is \<open>extract_evidence\<close> on strings, and
  lower-casing keeps the characters of such a text in place.
\<close>

lemma of_char_below_256: "(of_char c :: nat) < 256"
proof -
  have "(of_char c :: nat) mod 256 = of_char c"
    by (rule of_char_mod_256)
  then show ?thesis
    by (metis mod_less_divisor zero_less_numeral)
qed

lemma is_uspace_below_256:
  "n < 256 \<Longrightarrow> is_uspace n \<longleftrightarrow> n \<in> set [9, 10, 11, 12, 13, 28, 29, 30, 31, 32, 133, 160]"
  by (auto simp: is_uspace_def)

lemma is_uspace_of_char: "is_uspace (of_char c) = is_space c"
proof -
  have "is_space c \<longleftrightarrow> (of_char c :: nat) \<in> of_char ` set [CHR 0x09, CHR 0x0A, CHR 0x0B, CHR 0x0C, CHR 0x0D, CHR 0x1C,
                            CHR 0x1D, CHR 0x1E, CHR 0x1F, CHR 0x20, CHR 0x85, CHR 0xA0]"
    unfolding is_space_def by (simp only: inj_image_mem_iff [OF inj_of_char])
  also have "\<dots> \<longleftrightarrow> (of_char c :: nat) \<in> set [9, 10, 11, 12, 13, 28, 29, 30, 31, 32, 133, 160]"
    by simp
  finally show ?thesis
    by (simp only: is_uspace_below_256 [OF of_char_below_256])
qed

lemma sample_lower_cp_Char:
  "sample_lower_cp (of_char (Char b0 b1 b2 b3 b4 b5 b6 b7))
     = [of_char (lower_char (Char b0 b1 b2 b3 b4 b5 b6 b7))]"
  by (cases b0; cases b1; cases b2; cases b3; cases b4; cases b5; cases b6; cases b7;
      simp add: sample_lower_cp_def)

lemma sample_lower_cp_of_char: "sample_lower_cp (of_char c) = [of_char (lower_char c)]"
  by (cases c) (simp only: sample_lower_cp_Char)

lemma cps_lower: "cps (lower s) = sample_str_lower (cps s)"
  by (induction s) (simp_all add: cps_def lower_def sample_str_lower_def sample_lower_cp_of_char)

lemma prefix_cps: "prefix (cps p) (cps s) = prefix p s"
proof (induction p arbitrary: s)
  case Nil
  then show ?case by (simp add: cps_def)
next
  case (Cons a p)
  then show ?case by (cases s) (simp_all add: cps_def)
qed

lemma find_from_cps: "find_from i (cps p) (cps s) = find_from i p s"
proof (induction s arbitrary: i)
  case Nil
  then show ?case by (simp add: cps_def)
next
  case (Cons c s)
  have "prefix (cps p) (of_char c # cps s) = prefix p (c # s)"
    using prefix_cps [of p "c # s"] by (simp add: cps_def)
  with Cons show ?case by (simp add: cps_def)
qed

lemma str_find_cps: "str_find (cps p) (cps s) = str_find p s"
  by (simp add: str_find_def find_from_cps)

lemma usplit_from_cps: "usplit_from (cps cur) (cps s) = map cps (split_from cur s)"
proof (induction s arbitrary: cur)
  case Nil
  then show ?case by (simp add: cps_def)
next
  case (Cons c s)
  from Cons [of "[]"] Cons [of "cur @ [c]"] show ?case
    by (simp add: cps_def is_uspace_of_char)
qed

lemma join_cps: "join (cps sep) (map cps xs) = cps (join sep xs)"
  by (induction sep xs rule: join.induct) (simp_all add: cps_def)

lemma ucollapse_cps: "ucollapse (cps s) = cps (collapse s)"
  using usplit_from_cps [of "[]" s] join_cps [of "'' ''" "split_from [] s"]
  by (simp add: ucollapse_def collapse_def split_ws_def cps_def)

lemma slice_cps: "slice (cps s) a b = cps (slice s a b)"
  by (simp add: slice_def cps_def take_map drop_map)

lemma evidence_loop_cps:
  "evidence_loop ucollapse (map cps phrases) (cps lowered) (cps s)
     = cps (evidence_loop collapse phrases lowered s)"
proof (induction phrases)
  case Nil
  then show ?case by (simp add: cps_def)
next
  case (Cons phrase phrases)
  have len: "length (cps s) = length s" by (simp add: cps_def)
  show ?case
  proof (cases "str_find phrase lowered")
    case None
    with Cons show ?thesis by (simp add: str_find_cps)
  next
    case (Some idx)
    then show ?thesis
      by (simp add: str_find_cps Let_def slice_cps ucollapse_cps len)
  qed
qed

lemma extract_evidence_latin1:
  "extract_evidence_unicode sample_str_lower (cps s) = cps (extract_evidence s)"
  using evidence_loop_cps
          [of "[''executive coach'', ''executive coaching'', ''leadership coach'']" "lower s" s]
  by (simp add: extract_evidence_unicode_def extract_evidence_def cps_lower)

lemma latin1_keeps_places:
  "\<forall>c\<in>set s. c < 256 \<Longrightarrow> keeps_places s (sample_str_lower s)"
proof (induction s)
  case Nil
  then show ?case by (simp add: keeps_places_def sample_str_lower_def)
next
  case (Cons c s)
  then have "keeps_places s (sample_str_lower s)" by simp
  moreover have "is_uspace c \<Longrightarrow> sample_lower_cp c = [c]"
    by (auto simp: is_uspace_def sample_lower_cp_def)
  moreover from Cons.prems have "\<exists>l. sample_lower_cp c = [l]"
    by (simp add: sample_lower_cp_def)
  ultimately show ?case
    by (auto simp: keeps_places_def sample_str_lower_def)
qed

text \<open>Evaluations on the sample texts.\<close>

lemma x_not_space: "\<forall>c\<in>set (replicate n 120). \<not> is_uspace c"
  by (simp add: is_uspace_def)

lemma late_lower: "sample_str_lower late_match_text = late_match_text"
  by (simp add: late_match_text_def cps_def sample_str_lower_def sample_lower_cp_def)

lemma late_first: "str_find (cps ''leadership coach'') late_match_text = Some 0"
  by (simp add: late_match_text_def cps_def str_find_def)

lemma late_second: "str_find (cps ''executive coach'') late_match_text = Some 216"
  by (simp add: late_match_text_def cps_def str_find_def find_from_step find_from_skip
        find_from_here del: find_from.simps(2))

lemma late_window: "uwindow late_match_text 216 = replicate 60 120 @ cps ''executive coach''"
proof -
  have "slice late_match_text (216 - 60) (min (length late_match_text) (216 + 120))
          = replicate 60 120 @ cps ''executive coach''"
    by (simp add: late_match_text_def cps_def slice_def)
  moreover have "ucollapse (replicate 60 120 @ cps ''executive coach'')
                   = replicate 60 120 @ cps ''executive coach''"
    by (simp add: ucollapse_def usplit_from_word [OF x_not_space] cps_def is_uspace_def)
  ultimately show ?thesis by (simp add: uwindow_def)
qed

lemma early_window: "uwindow late_match_text 0 = cps ''leadership coach'' @ replicate 104 120"
proof -
  have "slice late_match_text (0 - 60) (min (length late_match_text) (0 + 120))
          = cps ''leadership coach'' @ replicate 104 120"
    by (simp add: late_match_text_def cps_def slice_def)
  moreover have "ucollapse (cps ''leadership coach'' @ replicate 104 120)
                   = cps ''leadership coach'' @ replicate 104 120"
    by (simp add: ucollapse_def usplit_from_last_word [OF x_not_space] cps_def is_uspace_def)
  ultimately show ?thesis by (simp add: uwindow_def)
qed

lemma dotted_lower:
  "sample_str_lower dotted_text = concat (replicate 75 [105, 775]) @ cps ''executive coach''"
  by (simp add: dotted_text_def cps_def sample_str_lower_def sample_lower_cp_def)

lemma dotted_find:
  "str_find (cps ''executive coach'') (concat (replicate 75 [105, 775]) @ cps ''executive coach'') = Some 150"
  by (simp add: str_find_def find_from_skip find_from_here cps_def length_concat sum_list_replicate)

lemma dotted_window: "uwindow dotted_text 150 = []"
  by (simp add: uwindow_def slice_def dotted_text_def cps_def ucollapse_def)

lemma offer_sample:
  "sample_str_lower (cps ''We offer  Executive Coaching today'')
     = cps ''we offer  executive coaching today''"
  "str_find (cps ''executive coach'') (cps ''we offer  executive coaching today'') = Some 10"
  "keeps_places (cps ''We offer  Executive Coaching today'')
     (cps ''we offer  executive coaching today'')"
  "uwindow (cps ''We offer  Executive Coaching today'') 10
     = cps ''We offer Executive Coaching today''"
  by (simp_all add: sample_str_lower_def sample_lower_cp_def cps_def str_find_def
        keeps_places_def uwindow_def slice_def ucollapse_def is_uspace_def)

lemma leadership_sample:
  "sample_str_lower (cps ''Your Leadership Coach'') = cps ''your leadership coach''"
  "str_find (cps ''executive coach'') (cps ''your leadership coach'') = None"
  "str_find (cps ''leadership coach'') (cps ''your leadership coach'') = Some 5"
  "uwindow (cps ''Your Leadership Coach'') 5 = cps ''Your Leadership Coach''"
  by (simp_all add: sample_str_lower_def sample_lower_cp_def cps_def str_find_def
        uwindow_def slice_def ucollapse_def is_uspace_def)

lemma hello_sample:
  "sample_str_lower (cps ''Hello  world'') = cps ''hello  world''"
  "\<not> (\<exists>p\<in>set TRIGGER_PHRASES. contains (cps p) (cps ''hello  world''))"
  by (simp_all add: sample_str_lower_def sample_lower_cp_def cps_def str_find_def
        contains_def TRIGGER_PHRASES_def)

text \<open>
  Claim C8, as amended.  The text is a Python string of arbitrary code points and
  \<open>str_lower\<close> is any function in the place of \<open>str.lower\<close>.  \<open>extract_evidence\<close> tries the
  phrases \<open>executive coach\<close>, \<open>executive coaching\<close>, \<open>leadership coach\<close> in this order on
  the lower-cased text and takes the first phrase that occurs there, at the index of its
  first occurrence in the lower-cased text, whether or not another phrase occurs
  earlier.  It returns the original text from 60 characters before that index to 120
  characters after it, clipped to the text, with white space collapsed; so the result
  has at most 180 characters.  When no trigger phrase occurs in the lower-cased text the
  result is empty.  When lower-casing keeps the characters of the text in place (one
  character for each character, white space unchanged), the result is empty only when
  no trigger phrase occurs.  Since \<open>executive coach\<close> is a prefix of
  \<open>executive coaching\<close>, the second phrase never decides.
\<close>

theorem extract_evidence_window:
  "(\<not> (\<exists>p\<in>set TRIGGER_PHRASES. contains (cps p) (str_lower text))
       \<longrightarrow> extract_evidence_unicode str_lower text = [])
   \<and> length (extract_evidence_unicode str_lower text) \<le> 180
   \<and> (\<forall>idx. str_find (cps ''executive coach'') (str_lower text) = Some idx
          \<longrightarrow> extract_evidence_unicode str_lower text = uwindow text idx)
   \<and> (\<forall>idx. str_find (cps ''executive coach'') (str_lower text) = None
             \<and> str_find (cps ''leadership coach'') (str_lower text) = Some idx
          \<longrightarrow> extract_evidence_unicode str_lower text = uwindow text idx)
   \<and> (keeps_places text (str_lower text)
          \<longrightarrow> (extract_evidence_unicode str_lower text = []
                \<longleftrightarrow> \<not> (\<exists>p\<in>set TRIGGER_PHRASES. contains (cps p) (str_lower text))))"
proof -
  let ?l = "str_lower text"
  let ?ev = "extract_evidence_unicode str_lower text"
  let ?occurs = "\<exists>p\<in>set TRIGGER_PHRASES. contains (cps p) ?l"
  have coaching: "str_find (cps ''executive coach'') ?l = None
                  \<Longrightarrow> str_find (cps ''executive coaching'') ?l = None"
    using contains_prefix_mono [OF cps_heads(3), of ?l]
    by (auto simp: str_find_None_iff)
  have a: "\<And>idx. str_find (cps ''executive coach'') ?l = Some idx \<Longrightarrow> ?ev = uwindow text idx"
    unfolding extract_evidence_unicode_def by (rule evidence_loop_Some)
  have b: "\<And>idx. str_find (cps ''executive coach'') ?l = None \<Longrightarrow>
             str_find (cps ''leadership coach'') ?l = Some idx \<Longrightarrow> ?ev = uwindow text idx"
    unfolding extract_evidence_unicode_def
    by (simp only: evidence_loop_None coaching evidence_loop_Some)
  have c: "str_find (cps ''executive coach'') ?l = None \<Longrightarrow>
           str_find (cps ''leadership coach'') ?l = None \<Longrightarrow> ?ev = []"
    unfolding extract_evidence_unicode_def
    by (simp add: coaching)
  have none: "\<not> ?occurs \<Longrightarrow> ?ev = []"
    by (rule c) (simp_all add: TRIGGER_PHRASES_def contains_def)
  have len: "length ?ev \<le> 180"
  proof (cases "str_find (cps ''executive coach'') ?l")
    case (Some idx)
    with a length_uwindow show ?thesis by simp
  next
    case None
    show ?thesis
    proof (cases "str_find (cps ''leadership coach'') ?l")
      case (Some idx)
      with None b length_uwindow show ?thesis by simp
    next
      case n2: None
      with None c show ?thesis by simp
    qed
  qed
  have empty: "?ev = [] \<longleftrightarrow> \<not> ?occurs" if places: "keeps_places text ?l"
  proof (cases "str_find (cps ''executive coach'') ?l")
    case (Some idx)
    then have "contains (cps ''executive coach'') ?l" by (simp add: contains_def)
    moreover from Some places have "uwindow text idx \<noteq> []"
      by (intro uwindow_nonempty [of 101 "cps ''xecutive coach''" ?l])
         (simp_all add: cps_heads is_uspace_def)
    ultimately show ?thesis using a [OF Some] by (simp add: TRIGGER_PHRASES_def)
  next
    case None
    show ?thesis
    proof (cases "str_find (cps ''leadership coach'') ?l")
      case (Some idx)
      then have "contains (cps ''leadership coach'') ?l" by (simp add: contains_def)
      moreover from Some places have "uwindow text idx \<noteq> []"
        by (intro uwindow_nonempty [of 108 "cps ''eadership coach''" ?l])
           (simp_all add: cps_heads is_uspace_def)
      ultimately show ?thesis using b [OF None Some] by (simp add: TRIGGER_PHRASES_def)
    next
      case n2: None
      with None coaching [OF None] c [OF None n2]
      show ?thesis by (simp add: TRIGGER_PHRASES_def contains_def)
    qed
  qed
  from none len a b empty show ?thesis by blast
qed

theorem extract_evidence_window_witness:
  "str_find (cps ''executive coach'') (sample_str_lower (cps ''We offer  Executive Coaching today''))
     = Some 10
   \<and> keeps_places (cps ''We offer  Executive Coaching today'')
        (sample_str_lower (cps ''We offer  Executive Coaching today''))
   \<and> extract_evidence_unicode sample_str_lower (cps ''We offer  Executive Coaching today'')
        = cps ''We offer Executive Coaching today''
   \<and> extract_evidence_unicode sample_str_lower (cps ''We offer  Executive Coaching today'') \<noteq> []
   \<and> str_find (cps ''executive coach'') (sample_str_lower (cps ''Your Leadership Coach'')) = None
   \<and> str_find (cps ''leadership coach'') (sample_str_lower (cps ''Your Leadership Coach'')) = Some 5
   \<and> extract_evidence_unicode sample_str_lower (cps ''Your Leadership Coach'')
        = cps ''Your Leadership Coach''
   \<and> extract_evidence_unicode sample_str_lower (cps ''Hello  world'') = []"
proof -
  from extract_evidence_window [of sample_str_lower "cps ''We offer  Executive Coaching today''"]
    offer_sample
  have a: "extract_evidence_unicode sample_str_lower (cps ''We offer  Executive Coaching today'')
             = cps ''We offer Executive Coaching today''"
    by simp
  from a have b: "extract_evidence_unicode sample_str_lower (cps ''We offer  Executive Coaching today'') \<noteq> []"
    by (simp add: cps_def)
  from extract_evidence_window [of sample_str_lower "cps ''Your Leadership Coach''"]
    leadership_sample
  have c: "extract_evidence_unicode sample_str_lower (cps ''Your Leadership Coach'')
             = cps ''Your Leadership Coach''"
    by simp
  from extract_evidence_window [of sample_str_lower "cps ''Hello  world''"] hello_sample
  have d: "extract_evidence_unicode sample_str_lower (cps ''Hello  world'') = []"
    by simp
  from a b c d offer_sample leadership_sample show ?thesis
    by simp
qed

text \<open>
  The claim as stated fails on \<open>late_match_text\<close>: the first occurrence of any trigger
  phrase is \<open>leadership coach\<close> at index 0, yet the result is the window around
  \<open>executive coach\<close> at index 216, which does not overlap the window around index 0.
  It also fails on \<open>dotted_text\<close>, where lower-casing moves the characters: the text has
  90 characters and contains a trigger phrase, whose index in the lower-cased text is
  150, so the slice of the original text from 90 to 90 is empty and so is the result.
\<close>

theorem extract_evidence_first_occurrence_counterexample:
  "str_find (cps ''leadership coach'') (sample_str_lower late_match_text) = Some 0
   \<and> str_find (cps ''executive coach'') (sample_str_lower late_match_text) = Some 216
   \<and> extract_evidence_unicode sample_str_lower late_match_text
        = replicate 60 120 @ cps ''executive coach''
   \<and> uwindow late_match_text 0 = cps ''leadership coach'' @ replicate 104 120
   \<and> extract_evidence_unicode sample_str_lower late_match_text \<noteq> uwindow late_match_text 0
   \<and> length dotted_text = 90
   \<and> sample_str_lower dotted_text = concat (replicate 75 [105, 775]) @ cps ''executive coach''
   \<and> str_find (cps ''executive coach'') (sample_str_lower dotted_text) = Some 150
   \<and> contains (cps ''executive coach'') (sample_str_lower dotted_text)
   \<and> extract_evidence_unicode sample_str_lower dotted_text = []"
proof -
  have late: "extract_evidence_unicode sample_str_lower late_match_text
                = replicate 60 120 @ cps ''executive coach''"
    unfolding extract_evidence_unicode_def late_lower
    by (simp only: evidence_loop_Some [OF late_second] late_window)
  have differ: "replicate 60 120 @ cps ''executive coach''
                  \<noteq> cps ''leadership coach'' @ replicate 104 (120::nat)"
  proof
    assume "replicate 60 120 @ cps ''executive coach''
              = cps ''leadership coach'' @ replicate 104 (120::nat)"
    then have "length (replicate 60 (120::nat) @ cps ''executive coach'')
                 = length (cps ''leadership coach'' @ replicate 104 (120::nat))"
      by simp
    then show False by (simp add: cps_def)
  qed
  have dotted: "extract_evidence_unicode sample_str_lower dotted_text = []"
    unfolding extract_evidence_unicode_def dotted_lower
    by (simp only: evidence_loop_Some [OF dotted_find] dotted_window)
  have len: "length dotted_text = 90"
    by (simp add: dotted_text_def cps_def)
  from late differ dotted len late_first late_second early_window dotted_find show ?thesis
    by (simp add: late_lower dotted_lower contains_def)
qed

section \<open>The markup text extractor\<close>

lemma foldl_te_concat:
  assumes "\<And>n t. n \<in> set ns \<Longrightarrow>
     foldl te_event t (events_of n) = t\<lparr>parts := parts t @ cleaned_parts (visible_texts (skip_depth t \<noteq> 0) n)\<rparr>"
  shows "foldl te_event t (concat (map events_of ns)) =
     t\<lparr>parts := parts t @ cleaned_parts (concat (map (visible_texts (skip_depth t \<noteq> 0)) ns))\<rparr>"
  using assms
proof (induction ns arbitrary: t)
  case Nil
  then show ?case by (simp add: cleaned_parts_def)
next
  case (Cons n ns)
  have step: "foldl te_event t (events_of n) =
      t\<lparr>parts := parts t @ cleaned_parts (visible_texts (skip_depth t \<noteq> 0) n)\<rparr>"
    by (rule Cons.prems) simp
  have rest: "\<And>t'. foldl te_event t' (concat (map events_of ns)) =
      t'\<lparr>parts := parts t' @ cleaned_parts (concat (map (visible_texts (skip_depth t' \<noteq> 0)) ns))\<rparr>"
    by (rule Cons.IH) (simp add: Cons.prems)
  show ?case
    by (simp add: step rest cleaned_parts_def)
qed

lemma te_node:
  "well_nested n \<Longrightarrow>
   foldl te_event t (events_of n) =
     t\<lparr>parts := parts t @ cleaned_parts (visible_texts (skip_depth t \<noteq> 0) n)\<rparr>"
proof (induction n arbitrary: t)
  case (Text d)
  then show ?case
    by (simp add: te_data_def cleaned_parts_def Let_def)
next
  case (Element tag attrs children)
  have wn: "\<And>c. c \<in> set children \<Longrightarrow> well_nested c"
    using Element.prems by (simp add: list_all_iff)
  have inner: "\<And>t'. foldl te_event t' (concat (map events_of children)) =
      t'\<lparr>parts := parts t' @ cleaned_parts (concat (map (visible_texts (skip_depth t' \<noteq> 0)) children))\<rparr>"
    by (rule foldl_te_concat) (simp add: Element.IH wn)
  show ?case
  proof (cases "is_skip_tag tag")
    case True
    then have tag: "tag \<in> {''script'', ''style''}" by (auto simp: is_skip_tag_def)
    show ?thesis
      using True tag by (simp add: inner te_starttag_def te_endtag_def)
  next
    case False
    then have tag: "tag \<notin> {''script'', ''style''}" by (auto simp: is_skip_tag_def)
    show ?thesis
      using False tag by (simp add: inner te_starttag_def te_endtag_def)
  qed
next
  case (Void tag attrs)
  then show ?case
    by (auto simp: te_starttag_def is_skip_tag_def cleaned_parts_def)
next
  case (StrayEnd tag)
  then show ?case
    by (auto simp: te_endtag_def is_skip_tag_def cleaned_parts_def)
qed


lemma collapse_join_words:
  assumes "\<forall>w\<in>set ws. w \<noteq> [] \<and> (\<forall>c\<in>set w. \<not> is_space c)"
  shows "collapse (join '' '' ws) = join '' '' ws"
  using split_from_join [OF assms] by (simp add: collapse_def split_ws_def)

lemma parts_as_words:
  assumes "\<forall>p\<in>set ps. \<exists>d. p = collapse d \<and> p \<noteq> []"
  shows "\<exists>wss. ps = map (join '' '') wss \<and> (\<forall>ws\<in>set wss. ws \<noteq> [])
            \<and> (\<forall>w\<in>set (concat wss). w \<noteq> [] \<and> (\<forall>c\<in>set w. \<not> is_space c))"
  using assms
proof (induction ps)
  case Nil
  show ?case by (rule exI [of _ "[]"]) simp
next
  case (Cons p ps)
  then obtain wss where wss: "ps = map (join '' '') wss" "\<forall>ws\<in>set wss. ws \<noteq> []"
      "\<forall>w\<in>set (concat wss). w \<noteq> [] \<and> (\<forall>c\<in>set w. \<not> is_space c)"
    by auto
  from Cons.prems obtain d where d: "p = collapse d" "p \<noteq> []" by auto
  then have ne: "split_ws d \<noteq> []" by (auto simp: collapse_def)
  have clean: "\<forall>w\<in>set (split_ws d). w \<noteq> [] \<and> (\<forall>c\<in>set w. \<not> is_space c)"
    using split_ws_clean by blast
  show ?case
    by (rule exI [of _ "split_ws d # wss"]) (use wss d ne clean in \<open>auto simp: collapse_def\<close>)
qed

lemma collapse_join_parts:
  assumes "\<forall>p\<in>set ps. \<exists>d. p = collapse d \<and> p \<noteq> []"
  shows "collapse (join '' '' ps) = join '' '' ps"
proof -
  from parts_as_words [OF assms] obtain wss where wss: "ps = map (join '' '') wss"
      "\<forall>ws\<in>set wss. ws \<noteq> []"
      "\<forall>w\<in>set (concat wss). w \<noteq> [] \<and> (\<forall>c\<in>set w. \<not> is_space c)"
    by blast
  have "join '' '' ps = join '' '' (concat wss)"
    using wss(1,2) by (simp add: join_join_concat)
  with collapse_join_words [OF wss(3)] show ?thesis by simp
qed

lemma te_event_parts:
  "p \<in> set (parts (te_event t e)) \<Longrightarrow> p \<in> set (parts t) \<or> (\<exists>d. p = collapse d \<and> p \<noteq> [])"
  by (cases e) (auto simp: te_starttag_def te_endtag_def te_data_def Let_def split: if_splits)

lemma foldl_te_parts:
  "(\<forall>p\<in>set (parts t). \<exists>d. p = collapse d \<and> p \<noteq> []) \<Longrightarrow>
   \<forall>p\<in>set (parts (foldl te_event t es)). \<exists>d. p = collapse d \<and> p \<noteq> []"
proof (induction es arbitrary: t)
  case Nil
  then show ?case by simp
next
  case (Cons e es)
  have "\<forall>p\<in>set (parts (te_event t e)). \<exists>d. p = collapse d \<and> p \<noteq> []"
    using te_event_parts Cons.prems by blast
  from Cons.IH [OF this] show ?case by simp
qed

lemma te_text_normalized: "collapse (te_text (te_feed es)) = te_text (te_feed es)"
proof -
  have "\<forall>p\<in>set (parts (te_feed es)). \<exists>d. p = collapse d \<and> p \<noteq> []"
    unfolding te_feed_def by (rule foldl_te_parts) (simp add: te_init_def)
  then show ?thesis
    unfolding te_text_def by (rule collapse_join_parts)
qed

text \<open>
  Claim C5.  For every well-nested document, whatever the depth at which \<open>script\<close> and
  \<open>style\<close> elements are nested, the text that \<open>TextExtractor\<close> yields on the events of
  the document is the space-separated sequence of the collapsed, non-empty text nodes that
  lie inside no \<open>script\<close> or \<open>style\<close> element; nothing of the text inside such an
  element enters it.  The result is white-space normalised: collapsing it again does not
  change it.
\<close>

theorem text_extractor_visible_text:
  assumes "list_all well_nested doc"
  shows "te_text (te_feed (concat (map events_of doc)))
           = join '' '' (cleaned_parts (concat (map (visible_texts False) doc)))
         \<and> collapse (te_text (te_feed (concat (map events_of doc))))
             = te_text (te_feed (concat (map events_of doc)))"
proof -
  have "foldl te_event te_init (concat (map events_of doc)) =
      te_init\<lparr>parts := parts te_init @ cleaned_parts (concat (map (visible_texts (skip_depth te_init \<noteq> 0)) doc))\<rparr>"
    by (rule foldl_te_concat) (use assms in \<open>simp add: te_node list_all_iff\<close>)
  then have "te_text (te_feed (concat (map events_of doc)))
           = join '' '' (cleaned_parts (concat (map (visible_texts False) doc)))"
    by (simp add: te_feed_def te_text_def te_init_def)
  moreover note te_text_normalized [of "concat (map events_of doc)"]
  ultimately show ?thesis by (rule conjI)
qed

theorem text_extractor_visible_text_witness:
  "list_all well_nested sample_document
   \<and> te_text (te_feed (concat (map events_of sample_document))) = ''Hello world bye''"
proof -
  have wn: "list_all well_nested sample_document"
    by (simp add: sample_document_def is_skip_tag_def)
  have "join '' '' (cleaned_parts (concat (map (visible_texts False) sample_document))) = ''Hello world bye''"
    by (simp add: sample_document_def is_skip_tag_def cleaned_parts_def collapse_def split_ws_def is_space_def)
  with text_extractor_visible_text [OF wn] wn show ?thesis by simp
qed

section \<open>The duplicate-send guard\<close>

lemma instant_replace_utc:
  "instant (if utcoffset d = None then d\<lparr>utcoffset := Some 0\<rparr> else d) = instant d"
  by (simp add: instant_def)

lemma scan_rows_characterisation:
  assumes "\<forall>r\<in>set rows. r ''timestamp_utc'' \<noteq> Some PyNone"
  shows "scan_rows f cutoff rows recipient subject sender tv
           = Inr (\<exists>r\<in>set rows. recent_match f cutoff r recipient subject sender tv)"
  using assms
proof (induction rows)
  case Nil
  then show ?case by simp
next
  case (Cons r rows)
  then have ih: "scan_rows f cutoff rows recipient subject sender tv
      = Inr (\<exists>r\<in>set rows. recent_match f cutoff r recipient subject sender tv)"
    by simp
  from Cons.prems have cell: "r ''timestamp_utc'' \<noteq> Some PyNone" by simp
  show ?case
  proof (cases "r ''timestamp_utc''")
    case None
    show ?thesis
    proof (cases "f []")
      case n: None
      with None ih show ?thesis by (simp add: recent_match_def)
    next
      case (Some d)
      with None ih show ?thesis
        by (auto simp: recent_match_def Let_def instant_replace_utc simp del: instant_def)
    qed
  next
    case (Some v)
    with cell obtain stamp where v: "v = Str stamp" by (cases v) auto
    show ?thesis
    proof (cases "f stamp")
      case None
      with Some v ih show ?thesis by (simp add: recent_match_def)
    next
      case d: (Some d)
      with Some v ih show ?thesis
        by (auto simp: recent_match_def Let_def instant_replace_utc)
    qed
  qed
qed

text \<open>
  Claim C1, as amended.  When the log file exists, the cutoff \<open>now - window\<close> is a
  representable \<open>datetime\<close> and no row lacks its time stamp cell, \<open>should_skip_send\<close>
  returns true if and only if some row matches all four fields exactly and its time
  stamp parses to an instant at or after the cutoff; rows whose time stamp does not
  parse are skipped.  No upper bound is tested: a matching row dated after \<open>now\<close>
  counts too, so the condition is the interval from the cutoff to \<open>now\<close> only when no
  row is dated after \<open>now\<close>.  When the log file does not exist the result is false.
\<close>

theorem should_skip_send_recent_match:
  assumes "cutoff_of now window_hours = Inr cutoff"
    and "\<forall>r\<in>set rows. r ''timestamp_utc'' \<noteq> Some PyNone"
  shows "should_skip_send f now (Some rows) recipient subject sender tv window_hours
           = Inr (\<exists>r\<in>set rows. recent_match f cutoff r recipient subject sender tv)
         \<and> ((\<forall>r\<in>set rows. \<forall>stamp d. r ''timestamp_utc'' = Some (Str stamp) \<and> f stamp = Some d
                 \<longrightarrow> instant d \<le> now) \<and> f [] = None
              \<longrightarrow> should_skip_send f now (Some rows) recipient subject sender tv window_hours
                    = Inr (\<exists>r\<in>set rows. window_match f cutoff now r recipient subject sender tv))
         \<and> should_skip_send f now None recipient subject sender tv window_hours = Inr False"
proof -
  have a: "should_skip_send f now (Some rows) recipient subject sender tv window_hours
           = Inr (\<exists>r\<in>set rows. recent_match f cutoff r recipient subject sender tv)"
    using assms by (simp add: should_skip_send_def scan_rows_characterisation)
  have b: "(\<exists>r\<in>set rows. recent_match f cutoff r recipient subject sender tv)
         = (\<exists>r\<in>set rows. window_match f cutoff now r recipient subject sender tv)"
    if past: "\<forall>r\<in>set rows. \<forall>stamp d. r ''timestamp_utc'' = Some (Str stamp) \<and> f stamp = Some d
                 \<longrightarrow> instant d \<le> now" and e: "f [] = None"
  proof -
    have "recent_match f cutoff r recipient subject sender tv
        = window_match f cutoff now r recipient subject sender tv" if "r \<in> set rows" for r
      using that past e
      by (auto simp: recent_match_def window_match_def split: option.splits cell.splits)
    then show ?thesis by blast
  qed
  have c: "should_skip_send f now None recipient subject sender tv window_hours = Inr False"
    by (simp add: should_skip_send_def)
  show ?thesis
  proof (intro conjI impI)
    show "should_skip_send f now (Some rows) recipient subject sender tv window_hours
           = Inr (\<exists>r\<in>set rows. recent_match f cutoff r recipient subject sender tv)"
      by (rule a)
  next
    assume h: "(\<forall>r\<in>set rows. \<forall>stamp d. r ''timestamp_utc'' = Some (Str stamp) \<and> f stamp = Some d
                 \<longrightarrow> instant d \<le> now) \<and> f [] = None"
    then have "(\<exists>r\<in>set rows. recent_match f cutoff r recipient subject sender tv)
         = (\<exists>r\<in>set rows. window_match f cutoff now r recipient subject sender tv)"
      using b conjunct1 [OF h] conjunct2 [OF h] by blast
    with a show "should_skip_send f now (Some rows) recipient subject sender tv window_hours
                    = Inr (\<exists>r\<in>set rows. window_match f cutoff now r recipient subject sender tv)"
      by simp
  next
    show "should_skip_send f now None recipient subject sender tv window_hours = Inr False"
      by (rule c)
  qed
qed


theorem should_skip_send_recent_match_witness:
  "should_skip_send sample_fromisoformat sample_now
       (Some [sample_row ''not a date'', sample_row ''2026-11-04T10:00:00+00:00''])
       ''ann@example.com'' ''Welcome'' ''me@example.com'' ''default-v1'' 24 = Inr True
   \<and> should_skip_send sample_fromisoformat sample_now
       (Some [sample_row ''not a date'', sample_row ''2026-11-04T10:00:00+00:00''])
       ''ann@example.com'' ''Welcome'' ''me@example.com'' ''default-v1'' 1 = Inr False
   \<and> should_skip_send sample_fromisoformat sample_now
       (Some [sample_row ''2026-11-04T10:00:00+00:00''])
       ''bob@example.com'' ''Welcome'' ''me@example.com'' ''default-v1'' 24 = Inr False
   \<and> should_skip_send sample_fromisoformat sample_now None
       ''ann@example.com'' ''Welcome'' ''me@example.com'' ''default-v1'' 24 = Inr False"
proof -
  let ?rows = "[sample_row ''not a date'', sample_row ''2026-11-04T10:00:00+00:00'']"
  have c24: "cutoff_of sample_now 24 = Inr 63929304000000000"
    by (simp add: cutoff_of_def sample_now_def DATETIME_END_US_def)
  have c1: "cutoff_of sample_now 1 = Inr 63929386800000000"
    by (simp add: cutoff_of_def sample_now_def DATETIME_END_US_def)
  have cells: "\<forall>r\<in>set ?rows. r ''timestamp_utc'' \<noteq> Some PyNone"
    by (simp add: sample_row_def)
  have cells': "\<forall>r\<in>set [sample_row ''2026-11-04T10:00:00+00:00'']. r ''timestamp_utc'' \<noteq> Some PyNone"
    by (simp add: sample_row_def)
  have "should_skip_send sample_fromisoformat sample_now (Some ?rows)
       ''ann@example.com'' ''Welcome'' ''me@example.com'' ''default-v1'' 24 = Inr True"
    using should_skip_send_recent_match [OF c24 cells, of sample_fromisoformat
        "''ann@example.com''" "''Welcome''" "''me@example.com''" "''default-v1''"]
    by (simp add: recent_match_def sample_row_def sample_fromisoformat_def instant_def)
  moreover have "should_skip_send sample_fromisoformat sample_now (Some ?rows)
       ''ann@example.com'' ''Welcome'' ''me@example.com'' ''default-v1'' 1 = Inr False"
    using should_skip_send_recent_match [OF c1 cells, of sample_fromisoformat
        "''ann@example.com''" "''Welcome''" "''me@example.com''" "''default-v1''"]
    by (simp add: recent_match_def sample_row_def sample_fromisoformat_def instant_def)
  moreover have "should_skip_send sample_fromisoformat sample_now
       (Some [sample_row ''2026-11-04T10:00:00+00:00''])
       ''bob@example.com'' ''Welcome'' ''me@example.com'' ''default-v1'' 24 = Inr False"
    using should_skip_send_recent_match [OF c24 cells', of sample_fromisoformat
        "''bob@example.com''" "''Welcome''" "''me@example.com''" "''default-v1''"]
    by (simp add: recent_match_def sample_row_def sample_fromisoformat_def instant_def)
  moreover have "should_skip_send sample_fromisoformat sample_now None
       ''ann@example.com'' ''Welcome'' ''me@example.com'' ''default-v1'' 24 = Inr False"
    using should_skip_send_recent_match [OF c24 cells, of sample_fromisoformat
        "''ann@example.com''" "''Welcome''" "''me@example.com''" "''default-v1''"]
    by simp
  ultimately show ?thesis by simp
qed

text \<open>
  The claim as stated fails in three ways: a matching row dated one day after \<open>now\<close>,
  outside the interval, makes the guard return true; a row without a time stamp cell
  makes it raise \<open>TypeError\<close>; and a window of 20000000 hours makes it raise
  \<open>OverflowError\<close>.
\<close>

theorem should_skip_send_window_counterexample:
  "should_skip_send sample_fromisoformat sample_now
       (Some [sample_row ''2026-11-05T12:00:00+00:00''])
       ''ann@example.com'' ''Welcome'' ''me@example.com'' ''default-v1'' 24 = Inr True
   \<and> sample_fromisoformat ''2026-11-05T12:00:00+00:00''
       = Some \<lparr>fields_us = 63929476800000000, utcoffset = Some 0\<rparr>
   \<and> sample_now < instant \<lparr>fields_us = 63929476800000000, utcoffset = Some 0\<rparr>
   \<and> \<not> window_match sample_fromisoformat 63929304000000000 sample_now
         (sample_row ''2026-11-05T12:00:00+00:00'')
         ''ann@example.com'' ''Welcome'' ''me@example.com'' ''default-v1''
   \<and> should_skip_send sample_fromisoformat sample_now (Some [short_row])
       ''ann@example.com'' ''Welcome'' ''me@example.com'' ''default-v1'' 24 = Inl TypeError
   \<and> should_skip_send sample_fromisoformat sample_now (Some [])
       ''ann@example.com'' ''Welcome'' ''me@example.com'' ''default-v1'' 20000000
       = Inl OverflowError"
  by (simp add: should_skip_send_def cutoff_of_def sample_now_def DATETIME_END_US_def
      sample_row_def short_row_def sample_fromisoformat_def instant_def window_match_def)

section \<open>The result link extractor\<close>

lemma set_keep_first: "set (keep_first xs) = set xs"
  by (induction xs) auto

lemma distinct_keep_first: "distinct (keep_first xs)"
  by (induction xs) (auto simp: set_keep_first)

lemma filter_seen_keep_first:
  "x \<in> S \<Longrightarrow> filter (\<lambda>y. y \<notin> S) (filter (\<lambda>y. y \<noteq> x) ys) = filter (\<lambda>y. y \<notin> S) ys"
  by (induction ys) auto

lemma filter_insert_seen:
  "filter (\<lambda>y. y \<notin> insert x S) ys = filter (\<lambda>y. y \<notin> S) (filter (\<lambda>y. y \<noteq> x) ys)"
  by (induction ys) auto

lemma collect_results_invariant:
  assumes "collect_results lib cap ls results seen = Inr rs"
    and "seen = set results" and "distinct results"
    and "\<forall>r\<in>set results. prefix ''http'' r"
    and "int (length results) < cap"
  shows "int (length rs) \<le> cap \<and> distinct rs \<and> (\<forall>r\<in>set rs. prefix ''http'' r)"
  using assms
proof (induction ls arbitrary: results seen)
  case Nil
  then show ?case by simp
next
  case (Cons link rest)
  from Cons.prems(1) obtain n where n: "normalize_bing_link lib link = Inr n"
    by (cases "normalize_bing_link lib link") auto
  show ?case
  proof (cases "\<not> prefix ''http'' n \<or> n \<in> seen")
    case True
    with n Cons.prems(1) have "collect_results lib cap rest results seen = Inr rs"
      by (auto split: if_splits)
    from Cons.IH [OF this Cons.prems(2-5)] show ?thesis .
  next
    case False
    then have new: "prefix ''http'' n" "n \<notin> seen" by simp_all
    show ?thesis
    proof (cases "cap \<le> int (length (results @ [n]))")
      case True
      with n new Cons.prems(1) have "rs = results @ [n]" by simp
      with Cons.prems new show ?thesis by auto
    next
      case False
      with n new Cons.prems(1)
      have "collect_results lib cap rest (results @ [n]) (insert n seen) = Inr rs" by simp
      then show ?thesis
      proof (rule Cons.IH)
        show "insert n seen = set (results @ [n])" using Cons.prems(2) by simp
        show "distinct (results @ [n])" using Cons.prems(2,3) new by simp
        show "\<forall>r\<in>set (results @ [n]). prefix ''http'' r" using Cons.prems(4) new by simp
        show "int (length (results @ [n])) < cap" using False by simp
      qed
    qed
  qed
qed

lemma collect_results_characterisation:
  assumes "\<forall>l\<in>set ls. \<exists>n. normalize_bing_link lib l = Inr n"
    and "seen = set results"
    and "int (length results) < cap"
  shows "collect_results lib cap ls results seen =
     Inr (take (nat cap) (results @ filter (\<lambda>y. y \<notin> set results)
            (keep_first (filter (prefix ''http'') (map (\<lambda>l. projr (normalize_bing_link lib l)) ls)))))"
  using assms
proof (induction ls arbitrary: results seen)
  case Nil
  then show ?case by simp
next
  case (Cons link rest)
  let ?N = "\<lambda>l. projr (normalize_bing_link lib l)"
  let ?K = "keep_first (filter (prefix ''http'') (map ?N rest))"
  from Cons.prems(1) obtain n where n: "normalize_bing_link lib link = Inr n" by auto
  have restok: "\<forall>l\<in>set rest. \<exists>n. normalize_bing_link lib l = Inr n"
    using Cons.prems(1) by simp
  note ih = Cons.IH [OF restok]
  show ?case
  proof (cases "prefix ''http'' n")
    case False
    with n ih [OF Cons.prems(2,3)] show ?thesis by simp
  next
    case http: True
    show ?thesis
    proof (cases "n \<in> seen")
      case True
      then have "n \<in> set results" using Cons.prems(2) by simp
      with n http True ih [OF Cons.prems(2,3)] show ?thesis
        by (simp add: filter_seen_keep_first del: filter_filter)
    next
      case False
      then have nin: "n \<notin> set results" using Cons.prems(2) by simp
      show ?thesis
      proof (cases "cap \<le> int (length (results @ [n]))")
        case True
        with Cons.prems(3) have "nat cap = Suc (length results)" by simp
        with n http False True nin show ?thesis by (simp del: filter_filter)
      next
        case nc: False
        have s: "insert n seen = set (results @ [n])" using Cons.prems(2) by simp
        have l: "int (length (results @ [n])) < cap" using nc by simp
        have "filter (\<lambda>y. y \<notin> set (results @ [n])) ?K
            = filter (\<lambda>y. y \<notin> set results) (filter (\<lambda>y. y \<noteq> n) ?K)"
          using filter_insert_seen [of n "set results" ?K] by simp
        with n http False nc nin ih [OF s l] show ?thesis by (simp del: filter_filter)
      qed
    qed
  qed
qed


text \<open>
  Claim C3, as amended.  For every page of search results and every cap of at least 1,
  when \<open>bing_search\<close> returns a list, the list has at most cap links, has no duplicates,
  and every link in it starts with \<open>http\<close>; that prefix is what the code tests, not the
  absolute form.  When every link of the page normalises without an exception, the list
  is the first cap entries of the normalised links that start with \<open>http\<close>, in the
  order of the page, of equal links the first: the links come in the order encountered
  and collecting stops once the cap is reached.
\<close>

theorem bing_search_results:
  assumes "1 \<le> max_results"
    and "bing_search lib q max_results w = (Inr rs, w')"
  shows "int (length rs) \<le> max_results \<and> distinct rs \<and> (\<forall>r\<in>set rs. prefix ''http'' r)
     \<and> (\<exists>html_text.
           fst (fetch_url lib (''https://www.bing.com/search?q='' @ quote_plus lib q) w) = Inr html_text
           \<and> ((\<forall>l\<in>set (page_links lib html_text). \<exists>n. normalize_bing_link lib l = Inr n) \<longrightarrow>
                rs = take (nat max_results)
                       (keep_first (filter (prefix ''http'')
                          (map (\<lambda>l. projr (normalize_bing_link lib l)) (page_links lib html_text))))))"
proof -
  let ?url = "''https://www.bing.com/search?q='' @ quote_plus lib q"
  obtain r w1 where f: "fetch_url lib ?url w = (r, w1)" by (cases "fetch_url lib ?url w")
  with assms(2) obtain html_text where h: "r = Inr html_text"
    by (cases r) (auto simp: bing_search_def)
  with f assms(2) have c: "collect_results lib max_results (page_links lib html_text) [] {} = Inr rs"
    by (simp add: bing_search_def page_links_def)
  have inv: "int (length rs) \<le> max_results \<and> distinct rs \<and> (\<forall>r\<in>set rs. prefix ''http'' r)"
    by (rule collect_results_invariant [OF c]) (use assms(1) in simp_all)
  have ch: "rs = take (nat max_results)
                       (keep_first (filter (prefix ''http'')
                          (map (\<lambda>l. projr (normalize_bing_link lib l)) (page_links lib html_text))))"
    if ok: "\<forall>l\<in>set (page_links lib html_text). \<exists>n. normalize_bing_link lib l = Inr n"
  proof -
    have "collect_results lib max_results (page_links lib html_text) [] {} =
        Inr (take (nat max_results) ([] @ filter (\<lambda>y. y \<notin> set [])
          (keep_first (filter (prefix ''http'')
             (map (\<lambda>l. projr (normalize_bing_link lib l)) (page_links lib html_text))))))"
      by (rule collect_results_characterisation [OF ok]) (use assms(1) in simp_all)
    with c show ?thesis by simp
  qed
  from f h have "fst (fetch_url lib ?url w) = Inr html_text" by simp
  with inv ch show ?thesis by blast
qed

lemma sample_search_two:
  "bing_search (python_lib sample_net) ''coach'' 2 []
     = (Inr [''http://a.example/coach'', ''http://b.example/coach''],
        [''https://www.bing.com/search?q=coach''])"
  by code_simp

theorem bing_search_results_witness:
  "bing_search (python_lib sample_net) ''coach'' 2 []
     = (Inr [''http://a.example/coach'', ''http://b.example/coach''],
        [''https://www.bing.com/search?q=coach''])
   \<and> int (length [''http://a.example/coach'', ''http://b.example/coach'']) \<le> 2
   \<and> distinct [''http://a.example/coach'', ''http://b.example/coach'']"
  using bing_search_results [OF _ sample_search_two] sample_search_two by simp

text \<open>
  The claim as stated fails for the cap 0, where the first link is appended before the
  length is tested, and for a relative link that starts with \<open>http\<close>.
\<close>

theorem bing_search_cap_counterexample:
  "bing_search (python_lib sample_net) ''coach'' 0 []
     = (Inr [''http://a.example/coach''], [''https://www.bing.com/search?q=coach''])
   \<and> \<not> int (length [''http://a.example/coach'']) \<le> 0
   \<and> bing_search (python_lib relative_net) ''coach'' 10 []
     = (Inr [''httpx/page'', ''http://a.example/coach''], [''https://www.bing.com/search?q=coach''])
   \<and> \<not> is_absolute_http ''httpx/page''"
  by code_simp

section \<open>Links wrapped by the redirect scheme\<close>

text \<open>
  On a link that \<open>urlparse\<close> accepts, \<open>normalize_bing_link\<close> returns the link or, for a
  redirect link whose \<open>u\<close> parameter decodes to a text starting with \<open>http\<close>, that text;
  on a link without the redirect marker it returns the link.
\<close>

lemma normalize_bing_link_parsed:
  assumes "urlparse lib link = Inr parsed"
    and "parse_qs lib (query parsed) ''u'' \<noteq> Some []"
  shows "\<exists>out. normalize_bing_link lib link = Inr out \<and> (out = link \<or>
           (contains ''bing.com/ck/a'' link \<and> prefix ''http'' out \<and>
            (\<exists>encoded vs. parse_qs lib (query parsed) ''u'' = Some (encoded # vs) \<and> encoded \<noteq> []
               \<and> b64_text lib
                    ((if prefix ''a1'' encoded then drop 2 encoded else encoded)
                      @ replicate ((4 - length (if prefix ''a1'' encoded then drop 2 encoded else encoded) mod 4) mod 4) CHR ''='')
                  = Some out)))"
  using assms
  by (auto simp: normalize_bing_link_def Let_def split: option.splits list.splits)

lemma normalize_not_redirect:
  "\<not> contains ''bing.com/ck/a'' link \<Longrightarrow> normalize_bing_link lib link = Inr link"
  by (simp add: normalize_bing_link_def)

lemma normalize_sample_redirect:
  "normalize_bing_link (python_lib sample_net)
       ''https://www.bing.com/ck/a?!&&p=abc&u=a1aHR0cHM6Ly9hLmV4YW1wbGUvY29hY2g&ntb=1''
     = Inr ''https://a.example/coach''
   \<and> normalize_bing_link (python_lib sample_net) ''https://www.bing.com/ck/a?p=abc&u=Q''
     = Inr ''https://www.bing.com/ck/a?p=abc&u=Q''
   \<and> normalize_bing_link (python_lib sample_net) ''https://www.bing.com/ck/a?p=abc''
     = Inr ''https://www.bing.com/ck/a?p=abc''"
  by code_simp

text \<open>
  Claim C4 at the link \<open>http://[bing.com/ck/a\<close>.  The link contains the redirect marker
  and has no payload, so the claim has it returned unchanged.  \<open>urlparse\<close> rejects its
  network location, which has an opening bracket only, and the call stands before the
  \<open>try\<close> block: \<open>normalize_bing_link\<close> raises \<open>ValueError\<close>.
\<close>

theorem normalize_bing_link_unparsable:
  "contains ''bing.com/ck/a'' ''http://[bing.com/ck/a''
   \<and> py_urlparse ''http://[bing.com/ck/a'' = Inl ValueError
   \<and> normalize_bing_link (python_lib sample_net) ''http://[bing.com/ck/a'' = Inl ValueError"
  by code_simp

section \<open>The location extractor\<close>








text \<open>
  The pattern as the source writes it needs a backslash in the text, so on texts without
  one only the bare names are found.
\<close>

lemma city_state_needs_backslash:
  "CHR 0x5C \<notin> set s \<Longrightarrow> city_state_search abbr s = None"
proof (induction s)
  case Nil
  then show ?case by simp
next
  case (Cons c cs)
  then have "c \<noteq> CHR 0x5C" by auto
  then have "match_city_state abbr (c # cs) = None"
    by (cases cs) (simp_all add: match_city_state_def)
  with Cons show ?case by simp
qed

section \<open>The candidate pipeline\<close>

lemma for_loop_inv:
  assumes "\<And>x s s'. x \<in> set xs \<Longrightarrow> I s \<Longrightarrow> body x s = Next s' \<or> body x s = Return s' \<Longrightarrow> I s'"
    and "I s"
    and "for_loop body xs s = Next s' \<or> for_loop body xs s = Return s'"
  shows "I s'"
  using assms
proof (induction xs arbitrary: s)
  case Nil
  then show ?case by simp
next
  case (Cons x xs)
  show ?case
  proof (cases "body x s")
    case (Raise e)
    with Cons.prems(3) show ?thesis by simp
  next
    case (Return s1)
    with Cons.prems(3) have "s' = s1" by simp
    with Return Cons.prems(1) [of x s s1] Cons.prems(2) show ?thesis by simp
  next
    case (Next s1)
    have i1: "I s1"
      using Next Cons.prems(1) [of x s s1] Cons.prems(2) by simp
    from Next Cons.prems(3) have r: "for_loop body xs s1 = Next s' \<or> for_loop body xs s1 = Return s'"
      by simp
    show ?thesis
      by (rule Cons.IH [OF _ i1 r]) (use Cons.prems(1) in auto)
  qed
qed

lemma pipeline_inv_world [simp]:
  "pipeline_inv lib limit (st\<lparr>world := w\<rparr>) = pipeline_inv lib limit st"
  by (simp add: pipeline_inv_def)

lemma pipeline_inv_seen:
  "pipeline_inv lib limit st \<Longrightarrow> pipeline_inv lib limit (st\<lparr>seen_domains := insert d (seen_domains st)\<rparr>)"
  by (auto simp: pipeline_inv_def list_all_iff)

lemma pipeline_inv_append:
  assumes inv: "pipeline_inv lib limit st"
    and dom: "domain_of lib link = Some d" "d \<notin> seen_domains st" "\<not> contains ''linkedin.com'' d"
    and room: "\<not> limit \<le> int (length (leads st))"
    and lead: "role l = ''Executive Coach''" "name l \<noteq> []" "location l \<noteq> []" "website_url l = link"
  shows "pipeline_inv lib limit
           (st\<lparr>seen_domains := insert d (seen_domains st), world := w1, leads := leads st @ [l], world := w2\<rparr>)"
proof -
  have fresh: "domain_of lib link \<notin> set (map (\<lambda>l. domain_of lib (website_url l)) (leads st))"
  proof
    assume "domain_of lib link \<in> set (map (\<lambda>l. domain_of lib (website_url l)) (leads st))"
    then obtain l' where l': "l' \<in> set (leads st)" "domain_of lib (website_url l') = Some d"
      using dom(1) by auto
    with inv have "d \<in> seen_domains st"
      by (auto simp: pipeline_inv_def list_all_iff)
    with dom(2) show False by simp
  qed
  from room have "int (length (leads st @ [l])) \<le> max 0 limit" by simp
  with inv fresh dom lead show ?thesis
    by (auto simp: pipeline_inv_def list_all_iff)
qed


lemma process_link_inv:
  assumes target: "target \<noteq> []"
    and inv: "pipeline_inv lib limit st"
    and run: "process_link lib limit target link st = Next st' \<or>
              process_link lib limit target link st = Return st'"
  shows "pipeline_inv lib limit st'"
proof (cases "limit \<le> int (length (leads st))")
  case True
  then have "process_link lib limit target link st = Return st"
    by (simp add: process_link_def)
  with run inv show ?thesis by simp
next
  case room: False
  show ?thesis
  proof (cases "urlparse lib link")
    case (Inl e)
    with room have "process_link lib limit target link st = Raise e"
      by (simp add: process_link_def)
    with run show ?thesis by simp
  next
    case (Inr parsed)
    define d where "d = lower (netloc parsed)"
    from Inr have dom: "domain_of lib link = Some d"
      by (simp add: domain_of_def d_def)
    show ?thesis
    proof (cases "d = [] \<or> d \<in> seen_domains st \<or> contains ''linkedin.com'' d")
      case True
      with room Inr have "process_link lib limit target link st = Next st"
        by (auto simp: process_link_def Let_def d_def)
      with run inv show ?thesis by simp
    next
      case False
      then have fresh: "d \<noteq> []" "d \<notin> seen_domains st" "\<not> contains ''linkedin.com'' d"
        by simp_all
      define st1 where "st1 = st\<lparr>seen_domains := insert d (seen_domains st)\<rparr>"
      have inv1: "pipeline_inv lib limit st1"
        unfolding st1_def using inv by (rule pipeline_inv_seen)
      obtain r w1 where f: "fetch_url lib link (world st) = (r, w1)"
        by (cases "fetch_url lib link (world st)")
      show ?thesis
      proof (cases r)
        case (Inl exc)
        with room Inr fresh f have "process_link lib limit target link st = Next (st1\<lparr>world := w1\<rparr>)"
          by (simp add: process_link_def Let_def d_def st1_def)
        with run inv1 show ?thesis by auto
      next
        case page: (Inr html_text)
        define ptext where "ptext = page_text lib html_text"
        show ?thesis
        proof (cases "\<not> looks_like_executive_coach ptext \<or> contains_excluded_keywords ptext")
          case True
          with room Inr fresh f page
          have "process_link lib limit target link st = Next (st1\<lparr>world := w1\<rparr>)"
            by (auto simp: process_link_def Let_def d_def st1_def ptext_def)
          with run inv1 show ?thesis by auto
        next
          case qualifies: False
          show ?thesis
          proof (cases "extract_linkedin lib html_text")
            case (Inl e)
            with room Inr fresh f page qualifies
            have "process_link lib limit target link st = Raise e"
              by (simp add: process_link_def Let_def d_def ptext_def)
            with run show ?thesis by simp
          next
            case found: (Inr found)
            let ?nm = "guess_name (extract_title lib html_text) (extract_h1 lib html_text)"
            let ?loc0 = "extract_location lib (page_text lib html_text)"
            let ?loc = "if ?loc0 = [] \<and> contains '','' target then target
                        else if ?loc0 = [] then target else ?loc0"
            obtain lk w2 where sl: "(if found = [] then search_linkedin lib ?nm w1 else (found, w1)) = (lk, w2)"
              by (cases "if found = [] then search_linkedin lib ?nm w1 else (found, w1)")
            define lead where "lead = \<lparr>name = (if ?nm \<noteq> [] then ?nm else ''Unknown''),
                   role = ''Executive Coach'', website_url = link, linkedin_url = lk,
                   location = ?loc, specialty = extract_specialty (page_text lib html_text),
                   evidence = extract_evidence (page_text lib html_text)\<rparr>"
            have "process_link lib limit target link st =
                Next (st\<lparr>seen_domains := insert d (seen_domains st), world := w1,
                          leads := leads st @ [lead], world := w2\<rparr>)"
              using room Inr fresh f page qualifies found sl
              by (simp add: process_link_def Let_def d_def ptext_def lead_def)
            moreover have "?loc \<noteq> []"
              using target by simp
            then have "pipeline_inv lib limit
                (st\<lparr>seen_domains := insert d (seen_domains st), world := w1,
                    leads := leads st @ [lead], world := w2\<rparr>)"
              by (intro pipeline_inv_append [OF inv dom fresh(2,3) room]) (simp_all add: lead_def)
            ultimately show ?thesis using run by auto
          qed
        qed
      qed
    qed
  qed
qed

lemma process_seed_inv:
  assumes "target \<noteq> []"
    and "pipeline_inv lib limit st"
    and "process_seed lib limit target seed st = Next st' \<or>
         process_seed lib limit target seed st = Return st'"
  shows "pipeline_inv lib limit st'"
proof (cases "limit \<le> int (length (leads st))")
  case True
  with assms show ?thesis by (simp add: process_seed_def)
next
  case False
  define q where "q = [CHR 0x22] @ seed @ [CHR 0x22, CHR 0x20, CHR 0x22] @ target @ [CHR 0x22]"
  obtain r w1 where b: "bing_search lib q 10 (world st) = (r, w1)"
    by (cases "bing_search lib q 10 (world st)")
  show ?thesis
  proof (cases r)
    case (Inl exc)
    with False b assms show ?thesis
      by (auto simp: process_seed_def Let_def q_def)
  next
    case (Inr results)
    with False b assms(3)
    have run: "for_loop (process_link lib limit target) results (st\<lparr>world := w1\<rparr>) = Next st' \<or>
               for_loop (process_link lib limit target) results (st\<lparr>world := w1\<rparr>) = Return st'"
      by (simp add: process_seed_def Let_def q_def)
    have start: "pipeline_inv lib limit (st\<lparr>world := w1\<rparr>)"
      using assms(2) by simp
    show ?thesis
    proof (rule for_loop_inv [where I = "pipeline_inv lib limit", OF _ start run])
      fix x s s'
      assume "pipeline_inv lib limit s"
        and "process_link lib limit target x s = Next s' \<or> process_link lib limit target x s = Return s'"
      then show "pipeline_inv lib limit s'"
        by (rule process_link_inv [OF assms(1)])
    qed
  qed
qed

lemma process_target_inv:
  assumes "target \<noteq> []"
    and "pipeline_inv lib limit st"
    and "process_target lib limit target st = Next st' \<or>
         process_target lib limit target st = Return st'"
  shows "pipeline_inv lib limit st'"
proof (rule for_loop_inv [where I = "pipeline_inv lib limit", OF _ assms(2) assms(3) [unfolded process_target_def]])
  fix x s s'
  assume "pipeline_inv lib limit s"
    and "process_seed lib limit target x s = Next s' \<or> process_seed lib limit target x s = Return s'"
  then show "pipeline_inv lib limit s'"
    by (rule process_seed_inv [OF assms(1)])
qed

lemma search_targets_nonempty: "\<forall>t\<in>set search_targets. t \<noteq> []"
  by (simp add: search_targets_def EAST_COAST_CITIES_def EAST_COAST_STATES_def)

lemma build_candidates_inv:
  assumes "build_candidates lib limit w = Inr (ls, w')"
  shows "\<exists>st. leads st = ls \<and> pipeline_inv lib limit st"
proof -
  let ?init = "\<lparr>leads = [], seen_domains = {}, world = w\<rparr>"
  let ?run = "for_loop (process_target lib limit) search_targets ?init"
  from assms obtain st where st: "?run = Next st \<or> ?run = Return st" "leads st = ls"
    by (cases ?run) (auto simp: build_candidates_def)
  have start: "pipeline_inv lib limit ?init"
    by (simp add: pipeline_inv_def)
  have "pipeline_inv lib limit st"
  proof (rule for_loop_inv [where I = "pipeline_inv lib limit", OF _ start st(1)])
    fix x s s'
    assume "x \<in> set search_targets" and "pipeline_inv lib limit s"
      and "process_target lib limit x s = Next s' \<or> process_target lib limit x s = Return s'"
    then show "pipeline_inv lib limit s'"
      using process_target_inv search_targets_nonempty by blast
  qed
  with st(2) show ?thesis by blast
qed


lemma build_candidates_at_most_limit:
  assumes "build_candidates lib limit w = Inr (ls, w')"
  shows "int (length ls) \<le> max 0 limit"
  using build_candidates_inv [OF assms] by (auto simp: pipeline_inv_def)

text \<open>
  When the pattern of \<open>extract_linkedin\<close> makes \<open>re.search\<close> raise on every text, as it
  does in Python, every page that passes the qualification filter ends the run with that
  exception, so a run that returns returns no lead.
\<close>

lemma process_link_no_lead:
  assumes raises: "\<And>html_text. \<exists>e. re_linkedin lib html_text = Inl e"
    and empty: "leads st = []"
    and run: "process_link lib limit target link st = Next st' \<or>
              process_link lib limit target link st = Return st'"
  shows "leads st' = []"
proof -
  have x: "\<exists>e. extract_linkedin lib html_text = Inl e" for html_text
  proof -
    from raises [of html_text] obtain e where "re_linkedin lib html_text = Inl e" by blast
    then show ?thesis by (simp add: extract_linkedin_def)
  qed
  show ?thesis
  proof (cases "limit \<le> int (length (leads st))")
    case True
    with run empty show ?thesis by (simp add: process_link_def)
  next
    case room: False
    show ?thesis
    proof (cases "urlparse lib link")
      case (Inl e)
      with room run show ?thesis by (simp add: process_link_def)
    next
      case (Inr parsed)
      obtain r w1 where f: "fetch_url lib link (world st) = (r, w1)"
        by (cases "fetch_url lib link (world st)")
      show ?thesis
      proof (cases r)
        case (Inl exc)
        with room Inr f run empty show ?thesis
          by (auto simp: process_link_def Let_def split: if_splits)
      next
        case page: (Inr html_text)
        from x obtain e where e: "extract_linkedin lib html_text = Inl e" by blast
        with room Inr f page run empty show ?thesis
          by (auto simp: process_link_def Let_def split: if_splits)
      qed
    qed
  qed
qed

lemma process_seed_no_lead:
  assumes raises: "\<And>html_text. \<exists>e. re_linkedin lib html_text = Inl e"
    and empty: "leads st = []"
    and run: "process_seed lib limit target seed st = Next st' \<or>
              process_seed lib limit target seed st = Return st'"
  shows "leads st' = []"
proof (cases "limit \<le> int (length (leads st))")
  case True
  with run empty show ?thesis by (simp add: process_seed_def)
next
  case False
  define q where "q = [CHR 0x22] @ seed @ [CHR 0x22, CHR 0x20, CHR 0x22] @ target @ [CHR 0x22]"
  obtain r w1 where b: "bing_search lib q 10 (world st) = (r, w1)"
    by (cases "bing_search lib q 10 (world st)")
  show ?thesis
  proof (cases r)
    case (Inl exc)
    with False b run empty show ?thesis
      by (auto simp: process_seed_def Let_def q_def)
  next
    case (Inr results)
    with False b run
    have loop: "for_loop (process_link lib limit target) results (st\<lparr>world := w1\<rparr>) = Next st' \<or>
               for_loop (process_link lib limit target) results (st\<lparr>world := w1\<rparr>) = Return st'"
      by (simp add: process_seed_def Let_def q_def)
    have start: "leads (st\<lparr>world := w1\<rparr>) = []"
      using empty by simp
    show ?thesis
    proof (rule for_loop_inv [where I = "\<lambda>s. leads s = []", OF _ start loop])
      fix x s s'
      assume "leads s = []"
        and "process_link lib limit target x s = Next s' \<or> process_link lib limit target x s = Return s'"
      then show "leads s' = []"
        by (rule process_link_no_lead [OF raises])
    qed
  qed
qed

lemma no_lead_when_linkedin_pattern_raises:
  assumes raises: "\<And>html_text. \<exists>e. re_linkedin lib html_text = Inl e"
    and run: "build_candidates lib limit w = Inr (ls, w')"
  shows "ls = []"
proof -
  let ?init = "\<lparr>leads = [], seen_domains = {}, world = w\<rparr>"
  let ?run = "for_loop (process_target lib limit) search_targets ?init"
  from run obtain st where st: "?run = Next st \<or> ?run = Return st" "leads st = ls"
    by (cases ?run) (auto simp: build_candidates_def)
  have start: "leads ?init = []" by simp
  have "leads st = []"
  proof (rule for_loop_inv [where I = "\<lambda>s. leads s = []", OF _ start st(1)])
    fix x s s'
    assume s: "leads s = []"
      and t: "process_target lib limit x s = Next s' \<or> process_target lib limit x s = Return s'"
    show "leads s' = []"
    proof (rule for_loop_inv [where I = "\<lambda>s. leads s = []", OF _ s t [unfolded process_target_def]])
      fix y u u'
      assume "leads u = []"
        and "process_seed lib limit x y u = Next u' \<or> process_seed lib limit x y u = Return u'"
      then show "leads u' = []"
        by (rule process_seed_no_lead [OF raises])
    qed
  qed
  with st(2) show ?thesis by simp
qed

lemma python_run_returns_no_lead:
  "build_candidates (python_lib net) limit w = Inr (ls, w') \<Longrightarrow> ls = []"
  by (rule no_lead_when_linkedin_pattern_raises [of "python_lib net"]) (simp_all add: python_lib_def)

text \<open>
  What the loops of \<open>build_candidates\<close> keep, for every library: in a list that it
  returns, leads at different positions have different domains, and every lead has the
  role \<open>Executive Coach\<close>, a name and a location that are not empty, and a domain that
  does not contain \<open>linkedin.com\<close>.  With Python's library the list is always empty,
  by \<open>python_run_returns_no_lead\<close>.
\<close>

lemma returned_leads_distinct_domains:
  assumes "build_candidates lib limit w = Inr (ls, w')"
  shows "(\<forall>i<length ls. \<forall>j<length ls. i \<noteq> j \<longrightarrow>
            domain_of lib (website_url (ls ! i)) \<noteq> domain_of lib (website_url (ls ! j)))
         \<and> (\<forall>l\<in>set ls. domain_of lib (website_url l) \<noteq> None)"
proof -
  from build_candidates_inv [OF assms] obtain st where st: "leads st = ls" "pipeline_inv lib limit st"
    by blast
  then have d: "distinct (map (\<lambda>l. domain_of lib (website_url l)) ls)"
    by (simp add: pipeline_inv_def)
  have "domain_of lib (website_url (ls ! i)) \<noteq> domain_of lib (website_url (ls ! j))"
    if "i < length ls" "j < length ls" "i \<noteq> j" for i j
    using d that nth_eq_iff_index_eq [of "map (\<lambda>l. domain_of lib (website_url l)) ls" i j]
    by simp
  moreover have "\<forall>l\<in>set ls. domain_of lib (website_url l) \<noteq> None"
    using st by (auto simp: pipeline_inv_def list_all_iff)
  ultimately show ?thesis by blast
qed

lemma returned_leads_fields:
  assumes "build_candidates lib limit w = Inr (ls, w')"
    and "l \<in> set ls"
  shows "role l = ''Executive Coach'' \<and> name l \<noteq> [] \<and> location l \<noteq> []
         \<and> (\<exists>d. domain_of lib (website_url l) = Some d \<and> \<not> contains ''linkedin.com'' d)"
proof -
  from build_candidates_inv [OF assms(1)] obtain st where "leads st = ls" "pipeline_inv lib limit st"
    by blast
  with assms(2) show ?thesis
    by (auto simp: pipeline_inv_def list_all_iff)
qed



text \<open>
  Claim C2 on \<open>sample_net\<close> with the limit 2.  The page of results has three links with
  three different domains and each of them leads to a page that passes the qualification
  filter, so the claim has \<open>build_candidates\<close> return exactly two leads.  With Python's
  library the first qualifying page makes \<open>extract_linkedin\<close> raise \<open>re.error\<close>, and
  \<open>build_candidates\<close> raises it instead of returning.
\<close>

theorem build_candidates_raises_on_first_qualifying_page:
  "page_links (python_lib sample_net) results_page
     = [''http://a.example/coach'', ''http://b.example/coach'', ''http://c.example/coach'']
   \<and> looks_like_executive_coach (page_text (python_lib sample_net) coach_page)
   \<and> \<not> contains_excluded_keywords (page_text (python_lib sample_net) coach_page)
   \<and> build_candidates (python_lib sample_net) 2 [] = Inl ReError"
  by code_simp

end
